theory Spec2Isabelle
  imports Main "HOL-Library.Word" "HOL-Library.AList"
begin

unbundle bit_operations_syntax

section \<open>Bytes, panics and errors\<close>

text \<open>
  A Go \<^verbatim>\<open>byte\<close> is an 8-bit word and a \<^verbatim>\<open>[]byte\<close> a list of them. Go's nil slice
  and its empty slice are both the empty list: the code tells them apart in one place only,
  \<^verbatim>\<open>branchNode.hasTarget\<close>, and every target that reaches it was decoded from bytes (or is
  the nil of \<^verbatim>\<open>branchWithChildren\<close>), where an empty field is nil.

  A run-time panic of Go is a \<open>fault\<close>; a function that can panic returns \<open>fault + 'a\<close>
  with \<open>Inl\<close> for the panic. \<open>OutOfFuel\<close> stands for a recursion that was cut off by the
  fuel of the model, that is for a call that has not returned yet.
  An \<^verbatim>\<open>error\<close> value that Go returns beside a result is an \<open>error option\<close>.
\<close>

type_synonym byte = "8 word"
type_synonym bytes = "byte list"

datatype fault =
    PanicMsg string
  | NilDereference
  | IndexOutOfRange
  | SliceOutOfRange
  | OutOfFuel

datatype error =
    ErrUnexpectedEOF
  | ErrUnknownNodeType byte
  | ErrUnmarshal
  | ErrNodeDeleted

definition HashLength :: nat where
  "HashLength = 32"

section \<open>Nibble codec\<close>

fun bytesToNibbles :: "bytes \<Rightarrow> bytes" where
  "bytesToNibbles [] = []"
| "bytesToNibbles (b # bs) = (b div 16) # (b mod 16) # bytesToNibbles bs"

text \<open>
  \<^verbatim>\<open>nibblesToBytes\<close> reads \<^verbatim>\<open>nibbles[ni+1]\<close> in every round: on an odd number of nibbles
  the last round indexes out of range.
\<close>

fun nibblesToBytes :: "bytes \<Rightarrow> fault + bytes" where
  "nibblesToBytes [] = Inr []"
| "nibblesToBytes [a] = Inl IndexOutOfRange"
| "nibblesToBytes (a # b # ns) =
     (case nibblesToBytes ns of
        Inl e \<Rightarrow> Inl e
      | Inr bs \<Rightarrow> Inr ((push_bit 4 a OR b) # bs))"

definition leafType :: byte where "leafType = 0x00"
definition extType :: byte where "extType = 0x01"
definition branchType :: byte where "branchType = 0x02"

definition encodeKey :: "bytes \<Rightarrow> byte \<Rightarrow> fault + (bytes \<times> byte)" where
  "encodeKey nibbles nodeType =
     (let odd_len = (length nibbles mod 2 \<noteq> 0);
          needPad = (if odd_len then 1 else 0 :: byte);
          padded = (if odd_len then nibbles @ [0] else nibbles);
          flag = push_bit 4 needPad OR nodeType
      in case nibblesToBytes padded of
           Inl e \<Rightarrow> Inl e
         | Inr bs \<Rightarrow> Inr (bs, flag))"

text \<open>
  \<^verbatim>\<open>decodeKey\<close> slices \<^verbatim>\<open>nibbles[0 : len(nibbles)-1]\<close> when the pad bit is set: on no
  nibbles at all the slice bound is negative and Go panics.
\<close>

definition decodeKey :: "byte \<Rightarrow> bytes \<Rightarrow> fault + (bytes \<times> byte)" where
  "decodeKey flag bs =
     (let nibbles = bytesToNibbles bs in
      if drop_bit 4 flag = 1 then
        (if nibbles = [] then Inl SliceOutOfRange
         else Inr (take (length nibbles - 1) nibbles, flag AND 0x0f))
      else Inr (nibbles, flag AND 0x0f))"

fun matchingLength :: "bytes \<Rightarrow> bytes \<Rightarrow> nat" where
  "matchingLength (x # xs) (y # ys) = (if x = y then Suc (matchingLength xs ys) else 0)"
| "matchingLength xs ys = 0"

section \<open>Digests\<close>

text \<open>
  \<^verbatim>\<open>crypto.Keccak256Hash\<close> is go-ethereum's, not this repository's: the digest function
  is the parameter \<open>K\<close> of everything that hashes. Its result is a \<^verbatim>\<open>common.Hash\<close>, an
  array of 32 bytes, which \<open>BytesToHash\<close> (go-ethereum's \<^verbatim>\<open>common.BytesToHash\<close>: crop
  from the left, pad on the left) makes of any byte string.
\<close>

definition BytesToHash :: "bytes \<Rightarrow> bytes" where
  "BytesToHash b =
     (let b' = drop (length b - HashLength) b
      in replicate (HashLength - length b') 0 @ b')"

definition Keccak256Hash :: "(bytes \<Rightarrow> bytes) \<Rightarrow> bytes \<Rightarrow> bytes" where
  "Keccak256Hash K bs = BytesToHash (K bs)"

definition EmptyHash :: "(bytes \<Rightarrow> bytes) \<Rightarrow> bytes" where
  "EmptyHash K = Keccak256Hash K []"

section \<open>The serialization of node bodies\<close>

text \<open>
  Modelled from the spec: the generated protobuf messages \<^verbatim>\<open>LeafNode\<close>, \<^verbatim>\<open>ExtNode\<close>
  and \<^verbatim>\<open>BranchNode\<close> and \<^verbatim>\<open>proto.Marshal\<close>/\<^verbatim>\<open>proto.Unmarshal\<close> are missing from the
  sources. The spec asks for a byte-deterministic, length-prefixed structured encoding with
  ordered fields: leaf \<open>{key, value}\<close>, extension \<open>{key, child}\<close>, branch
  \<open>{children: 16 byte strings (empty = absent), target}\<close>. Here a field is its length
  followed by its bytes, the length written as a run of 255s closed by a byte below 255, and
  a message is its fields in order. Unmarshalling fails on anything else.
\<close>

function putLen :: "nat \<Rightarrow> bytes" where
  "putLen n = (if n < 255 then [of_nat n] else 255 # putLen (n - 255))"
  by pat_completeness auto
termination
  by (relation "measure id") auto

declare putLen.simps [simp del]

fun getLen :: "bytes \<Rightarrow> (nat \<times> bytes) option" where
  "getLen [] = None"
| "getLen (b # bs) =
     (if b = 255 then
        (case getLen bs of None \<Rightarrow> None | Some (n, r) \<Rightarrow> Some (n + 255, r))
      else Some (unat b, bs))"

definition putField :: "bytes \<Rightarrow> bytes" where
  "putField bs = putLen (length bs) @ bs"

definition getField :: "bytes \<Rightarrow> (bytes \<times> bytes) option" where
  "getField bs =
     (case getLen bs of
        None \<Rightarrow> None
      | Some (n, r) \<Rightarrow> if n \<le> length r then Some (take n r, drop n r) else None)"

fun getFields :: "nat \<Rightarrow> bytes \<Rightarrow> (bytes list \<times> bytes) option" where
  "getFields 0 bs = Some ([], bs)"
| "getFields (Suc n) bs =
     (case getField bs of
        None \<Rightarrow> None
      | Some (f, r) \<Rightarrow>
          (case getFields n r of None \<Rightarrow> None | Some (fs, r') \<Rightarrow> Some (f # fs, r')))"

definition marshalLeafNode :: "bytes \<Rightarrow> bytes \<Rightarrow> bytes" where
  "marshalLeafNode keyBytes val = putField keyBytes @ putField val"

definition marshalExtNode :: "bytes \<Rightarrow> bytes \<Rightarrow> bytes" where
  "marshalExtNode keyBytes capped = putField keyBytes @ putField capped"

definition marshalBranchNode :: "bytes list \<Rightarrow> bytes \<Rightarrow> bytes" where
  "marshalBranchNode children target = concat (map putField children) @ putField target"

definition unmarshalPair :: "bytes \<Rightarrow> (bytes \<times> bytes) option" where
  "unmarshalPair raw =
     (case getFields 2 raw of
        Some ([a, b], []) \<Rightarrow> Some (a, b)
      | _ \<Rightarrow> None)"

definition unmarshalLeafNode :: "bytes \<Rightarrow> (bytes \<times> bytes) option" where
  "unmarshalLeafNode raw = unmarshalPair raw"

definition unmarshalExtNode :: "bytes \<Rightarrow> (bytes \<times> bytes) option" where
  "unmarshalExtNode raw = unmarshalPair raw"

definition unmarshalBranchNode :: "bytes \<Rightarrow> (bytes list \<times> bytes) option" where
  "unmarshalBranchNode raw =
     (case getFields 16 raw of
        None \<Rightarrow> None
      | Some (children, r) \<Rightarrow>
          (case getField r of
             Some (target, []) \<Rightarrow> Some (children, target)
           | _ \<Rightarrow> None))"

section \<open>Nodes\<close>

text \<open>
  The four node structs. A \<^verbatim>\<open>node\<close> interface value that may be nil is a \<open>node option\<close>:
  the 16 children of a branch, and the child of an extension (\<^verbatim>\<open>decodeExtNode\<close> returns
  the extension it built together with the error of its child, whose child is then nil).
  The \<^verbatim>\<open>encoded\<close> and \<^verbatim>\<open>hash\<close> fields memoize \<^verbatim>\<open>Encode\<close> and \<^verbatim>\<open>Hash\<close> of a node whose
  other fields never change after it is built, and \<^verbatim>\<open>Cache\<close> is called nowhere: they are
  left out and the two methods recompute.
\<close>

datatype node =
    leafNode bytes bytes
  | extNode bytes "node option"
  | branchNode "node option list" bytes
  | hashNode bytes

definition noChildren :: "node option list" where
  "noChildren = replicate 16 None"

definition branchWithTarget :: "bytes \<Rightarrow> node" where
  "branchWithTarget target = branchNode noChildren target"

definition branchWithChild :: "nat \<Rightarrow> node option \<Rightarrow> bytes \<Rightarrow> fault + node" where
  "branchWithChild pos n target =
     (if pos < 16 then Inr (branchNode (noChildren[pos := n]) target)
      else Inl IndexOutOfRange)"

definition branchWithChildren :: "node option list \<Rightarrow> node" where
  "branchWithChildren children = branchNode children []"

text \<open>The methods of a branch take its two fields, \<open>children\<close> and \<open>target\<close>.\<close>

definition updateTarget :: "node option list \<Rightarrow> bytes \<Rightarrow> node" where
  "updateTarget children target = branchNode children target"

definition updateChild :: "node option list \<Rightarrow> bytes \<Rightarrow> nat \<Rightarrow> node option \<Rightarrow> fault + node" where
  "updateChild children target pos child =
     (if pos < 16 then Inr (branchNode (children[pos := child]) target)
      else Inl IndexOutOfRange)"

definition childrenIndex :: "node option list \<Rightarrow> nat list" where
  "childrenIndex children = filter (\<lambda>i. children ! i \<noteq> None) [0 ..< 16]"

definition hasTarget :: "bytes \<Rightarrow> bool" where
  "hasTarget target = (target \<noteq> [])"

text \<open>The first panic of a list of results, from the left; the values otherwise.\<close>

fun sequenceR :: "(fault + 'a) list \<Rightarrow> fault + 'a list" where
  "sequenceR [] = Inr []"
| "sequenceR (r # rs) =
     (case r of
        Inl e \<Rightarrow> Inl e
      | Inr x \<Rightarrow> (case sequenceR rs of Inl e \<Rightarrow> Inl e | Inr xs \<Rightarrow> Inr (x # xs)))"

definition cappedOf :: "(bytes \<Rightarrow> bytes) \<Rightarrow> bytes \<Rightarrow> bytes" where
  "cappedOf K encoded =
     (if length encoded < HashLength then encoded else Keccak256Hash K encoded)"

text \<open>
  \<open>cappedWith K n r\<close> is \<^verbatim>\<open>n.Capped()\<close> where \<open>r\<close> is \<^verbatim>\<open>n.Encode()\<close>: a hash node gives
  its bytes as they are, any other node its encoding when below 32 bytes and its hash
  otherwise.
\<close>

definition cappedWith :: "(bytes \<Rightarrow> bytes) \<Rightarrow> node \<Rightarrow> fault + bytes \<Rightarrow> fault + bytes" where
  "cappedWith K n r =
     (case n of
        hashNode h \<Rightarrow> Inr h
      | _ \<Rightarrow> (case r of Inl e \<Rightarrow> Inl e | Inr encoded \<Rightarrow> Inr (cappedOf K encoded)))"

fun Encode :: "(bytes \<Rightarrow> bytes) \<Rightarrow> node \<Rightarrow> fault + bytes" where
  "Encode K (leafNode key val) =
     (case encodeKey key leafType of
        Inl e \<Rightarrow> Inl e
      | Inr (keyBytes, flag) \<Rightarrow> Inr (marshalLeafNode keyBytes val @ [flag]))"
| "Encode K (extNode key child) =
     (case child of
        None \<Rightarrow> Inl NilDereference
      | Some c \<Rightarrow>
          (case cappedWith K c (Encode K c) of
             Inl e \<Rightarrow> Inl e
           | Inr capped \<Rightarrow>
               (case encodeKey key extType of
                  Inl e \<Rightarrow> Inl e
                | Inr (keyBytes, flag) \<Rightarrow> Inr (marshalExtNode keyBytes capped @ [flag]))))"
| "Encode K (branchNode children target) =
     (case sequenceR (map (\<lambda>child. case child of
                                      None \<Rightarrow> Inr []
                                    | Some c \<Rightarrow> cappedWith K c (Encode K c)) children) of
        Inl e \<Rightarrow> Inl e
      | Inr cs \<Rightarrow> Inr (marshalBranchNode cs target @ [branchType]))"
| "Encode K (hashNode h) = Inr h"

definition Capped :: "(bytes \<Rightarrow> bytes) \<Rightarrow> node \<Rightarrow> fault + bytes" where
  "Capped K n = cappedWith K n (Encode K n)"

definition Hash :: "(bytes \<Rightarrow> bytes) \<Rightarrow> node \<Rightarrow> fault + bytes" where
  "Hash K n =
     (case n of
        hashNode h \<Rightarrow> Inr (BytesToHash h)
      | _ \<Rightarrow> (case Encode K n of Inl e \<Rightarrow> Inl e | Inr encoded \<Rightarrow> Inr (Keccak256Hash K encoded)))"


section \<open>Decoding\<close>

lemma getLen_shorter: "getLen bs = Some (n, r) \<Longrightarrow> length r < length bs"
  by (induction bs arbitrary: n r) (auto split: if_splits option.splits)

lemma getField_shorter: "getField bs = Some (f, r) \<Longrightarrow> length f + length r < length bs"
  by (auto simp: getField_def split: option.splits if_splits dest!: getLen_shorter)

lemma getFields_shorter:
  "getFields n bs = Some (fs, r) \<Longrightarrow> (\<forall>f \<in> set fs. length f \<le> length bs) \<and> length r \<le> length bs"
proof (induction n arbitrary: bs fs r)
  case 0
  then show ?case by simp
next
  case (Suc n)
  from Suc.prems obtain f r1 fs1 where
    f: "getField bs = Some (f, r1)" and g: "getFields n r1 = Some (fs1, r)" and fs: "fs = f # fs1"
    by (auto split: option.splits)
  from getField_shorter [OF f] Suc.IH [OF g] fs show ?case
    by fastforce
qed

lemma unmarshalPair_shorter: "unmarshalPair raw = Some (a, b) \<Longrightarrow> length b \<le> length raw"
  by (auto simp: unmarshalPair_def split: option.splits list.splits dest!: getFields_shorter)

lemma unmarshalBranchNode_shorter:
  "unmarshalBranchNode raw = Some (cs, t) \<Longrightarrow> c \<in> set cs \<Longrightarrow> length c \<le> length raw"
  by (auto simp: unmarshalBranchNode_def split: option.splits list.splits dest!: getFields_shorter)

text \<open>
  The three decoders call \<^verbatim>\<open>decodeNode\<close> back on the bytes of an embedded child: they take
  it as the parameter \<open>dec\<close>, and \<open>decodeNode\<close> below passes itself.
  Go returns a node and an error side by side, and both can be there: \<^verbatim>\<open>decodeExtNode\<close>
  and \<^verbatim>\<open>decodeBranchNode\<close> return the node they built with the error of a child, and the
  loop of \<^verbatim>\<open>decodeBranchNode\<close> overwrites \<^verbatim>\<open>err\<close> at every embedded child, so that the
  error of the last one is what it returns.
\<close>

type_synonym decoded = "fault + (node option \<times> error option)"

definition decodeLeafNode :: "bytes \<Rightarrow> byte \<Rightarrow> decoded" where
  "decodeLeafNode raw flag =
     (case unmarshalLeafNode raw of
        None \<Rightarrow> Inr (None, Some ErrUnmarshal)
      | Some (rawKey, rawValue) \<Rightarrow>
          (case decodeKey flag rawKey of
             Inl f \<Rightarrow> Inl f
           | Inr (keyNibbles, t) \<Rightarrow> Inr (Some (leafNode keyNibbles rawValue), None)))"

definition decodeExtNode :: "(bytes \<Rightarrow> decoded) \<Rightarrow> bytes \<Rightarrow> byte \<Rightarrow> decoded" where
  "decodeExtNode dec raw flag =
     (case unmarshalExtNode raw of
        None \<Rightarrow> Inr (None, Some ErrUnmarshal)
      | Some (rawKey, rawNode) \<Rightarrow>
          (case decodeKey flag rawKey of
             Inl f \<Rightarrow> Inl f
           | Inr (keyNibbles, t) \<Rightarrow>
               if length rawNode = HashLength
               then Inr (Some (extNode keyNibbles (Some (hashNode rawNode))), None)
               else (case dec rawNode of
                       Inl f \<Rightarrow> Inl f
                     | Inr (child, err) \<Rightarrow> Inr (Some (extNode keyNibbles child), err))))"

text \<open>
  The loop of \<^verbatim>\<open>decodeBranchNode\<close> over the raw children, with the \<^verbatim>\<open>err\<close> variable as
  an accumulator. \<open>unmarshalBranchNode\<close> yields 16 of them, the size of the array it fills.
\<close>

fun decodeChildren ::
  "(bytes \<Rightarrow> decoded) \<Rightarrow> bytes list \<Rightarrow> error option \<Rightarrow> fault + (node option list \<times> error option)"
where
  "decodeChildren dec [] err = Inr ([], err)"
| "decodeChildren dec (child # rest) err =
     (if length child = 0 then
        (case decodeChildren dec rest err of
           Inl f \<Rightarrow> Inl f
         | Inr (ns, err') \<Rightarrow> Inr (None # ns, err'))
      else if length child = HashLength then
        (case decodeChildren dec rest err of
           Inl f \<Rightarrow> Inl f
         | Inr (ns, err') \<Rightarrow> Inr (Some (hashNode child) # ns, err'))
      else
        (case dec child of
           Inl f \<Rightarrow> Inl f
         | Inr (n, err1) \<Rightarrow>
             (case decodeChildren dec rest err1 of
                Inl f \<Rightarrow> Inl f
              | Inr (ns, err') \<Rightarrow> Inr (n # ns, err'))))"

definition decodeBranchNode :: "(bytes \<Rightarrow> decoded) \<Rightarrow> bytes \<Rightarrow> decoded" where
  "decodeBranchNode dec raw =
     (case unmarshalBranchNode raw of
        None \<Rightarrow> Inr (None, Some ErrUnmarshal)
      | Some (rawChildren, rawTarget) \<Rightarrow>
          (case decodeChildren dec rawChildren None of
             Inl f \<Rightarrow> Inl f
           | Inr (children, err) \<Rightarrow> Inr (Some (branchNode children rawTarget), err)))"

lemma decodeExtNode_cong [fundef_cong]:
  assumes "raw = raw'" "flag = flag'"
    and "\<And>c. length c \<le> length raw' \<Longrightarrow> dec c = dec' c"
  shows "decodeExtNode dec raw flag = decodeExtNode dec' raw' flag'"
  using assms
  by (auto simp: decodeExtNode_def unmarshalExtNode_def
      split: option.splits sum.splits dest: unmarshalPair_shorter)

lemma decodeChildren_cong:
  "(\<And>c. c \<in> set cs \<Longrightarrow> dec c = dec' c) \<Longrightarrow> decodeChildren dec cs err = decodeChildren dec' cs err"
  by (induction cs arbitrary: err) (auto split: sum.splits)

lemma decodeBranchNode_cong [fundef_cong]:
  assumes "raw = raw'"
    and "\<And>c. length c \<le> length raw' \<Longrightarrow> dec c = dec' c"
  shows "decodeBranchNode dec raw = decodeBranchNode dec' raw'"
proof -
  have "decodeChildren dec cs None = decodeChildren dec' cs None"
    if "unmarshalBranchNode raw' = Some (cs, t)" for cs t
    by (rule decodeChildren_cong) (auto intro: assms(2) unmarshalBranchNode_shorter [OF that])
  then show ?thesis
    using assms(1) by (auto simp: decodeBranchNode_def split: option.splits)
qed

function decodeNode :: "bytes \<Rightarrow> decoded" where
  "decodeNode bs =
     (if length bs \<le> 1 then Inr (None, Some ErrUnexpectedEOF)
      else
        let flag = last bs; raw = butlast bs in
        if flag AND 0x0f = leafType then decodeLeafNode raw flag
        else if flag AND 0x0f = extType then decodeExtNode decodeNode raw flag
        else if flag AND 0x0f = branchType then decodeBranchNode decodeNode raw
        else Inr (None, Some (ErrUnknownNodeType flag)))"
  by pat_completeness auto
termination
  by (relation "measure length") auto

declare decodeNode.simps [simp del]

section \<open>The update log\<close>

text \<open>
  The three Go maps are association lists with distinct keys: \<open>map_of\<close> looks a key up,
  \<open>AList.update\<close> is \<^verbatim>\<open>m[k] = v\<close> and \<open>AList.delete\<close> is \<^verbatim>\<open>delete(m, k)\<close>. The order of
  a list stands for the order in which Go happens to range over the map.
\<close>

type_synonym hashmap = "(bytes \<times> bytes) list"

record updateLog =
  cached :: hashmap
  inserted :: hashmap
  deleted :: hashmap

definition newUpdateLog :: updateLog where
  "newUpdateLog = \<lparr>cached = [], inserted = [], deleted = []\<rparr>"

definition log_cache :: "updateLog \<Rightarrow> bytes \<Rightarrow> bytes \<Rightarrow> updateLog" where
  "log_cache lg k v = lg\<lparr>cached := AList.update k v (cached lg)\<rparr>"

definition log_insert :: "updateLog \<Rightarrow> bytes \<Rightarrow> bytes \<Rightarrow> updateLog" where
  "log_insert lg k v =
     lg\<lparr>deleted := AList.delete k (deleted lg),
        cached := AList.delete k (cached lg),
        inserted := AList.update k v (inserted lg)\<rparr>"

definition log_delete :: "updateLog \<Rightarrow> bytes \<Rightarrow> updateLog" where
  "log_delete lg k =
     lg\<lparr>inserted := AList.delete k (inserted lg),
        cached := AList.delete k (cached lg),
        deleted := AList.update k [] (deleted lg)\<rparr>"

text \<open>
  \<^verbatim>\<open>copy\<close> fills three new maps with the entries of the old ones, the deleted hashes with
  the empty value: the same association lists, since a map holds a key once.
\<close>

definition log_copy :: "updateLog \<Rightarrow> updateLog" where
  "log_copy lg =
     \<lparr>cached = cached lg,
      inserted = inserted lg,
      deleted = map (\<lambda>(k, v). (k, [])) (deleted lg)\<rparr>"

text \<open>The two loops of \<^verbatim>\<open>updateLog.merge\<close>, and \<^verbatim>\<open>merge\<close> itself.\<close>

fun mergeDeleted :: "(bytes \<Rightarrow> bytes) \<Rightarrow> updateLog \<Rightarrow> bytes \<Rightarrow> node list \<Rightarrow> fault + updateLog" where
  "mergeDeleted K lg oldRootHash [] = Inr lg"
| "mergeDeleted K lg oldRootHash (n # ns) =
     (case Capped K n of
        Inl f \<Rightarrow> Inl f
      | Inr capped \<Rightarrow>
          (case Hash K n of
             Inl f \<Rightarrow> Inl f
           | Inr vh \<Rightarrow>
               mergeDeleted K
                 (if length capped = HashLength \<or> vh = oldRootHash then log_delete lg vh else lg)
                 oldRootHash ns))"

definition newRootCappedOf :: "(bytes \<Rightarrow> bytes) \<Rightarrow> node option \<Rightarrow> fault + bytes" where
  "newRootCappedOf K newRootNode =
     (case newRootNode of None \<Rightarrow> Inr (EmptyHash K) | Some r \<Rightarrow> Capped K r)"

fun mergeInserted ::
  "(bytes \<Rightarrow> bytes) \<Rightarrow> updateLog \<Rightarrow> node option \<Rightarrow> node list \<Rightarrow> fault + updateLog" where
  "mergeInserted K lg newRootNode [] = Inr lg"
| "mergeInserted K lg newRootNode (n # ns) =
     (case Capped K n of
        Inl f \<Rightarrow> Inl f
      | Inr capped \<Rightarrow>
          (case newRootCappedOf K newRootNode of
             Inl f \<Rightarrow> Inl f
           | Inr newRootCapped \<Rightarrow>
               if length capped = HashLength \<or> capped = newRootCapped then
                 (case Hash K n of
                    Inl f \<Rightarrow> Inl f
                  | Inr h \<Rightarrow>
                      (case Encode K n of
                         Inl f \<Rightarrow> Inl f
                       | Inr encoded \<Rightarrow> mergeInserted K (log_insert lg h encoded) newRootNode ns))
               else mergeInserted K lg newRootNode ns))"

definition merge ::
  "(bytes \<Rightarrow> bytes) \<Rightarrow> updateLog \<Rightarrow> bytes \<Rightarrow> node option \<Rightarrow> node list \<Rightarrow> node list
     \<Rightarrow> fault + updateLog" where
  "merge K lg oldRootHash newRootNode deletedNodes insertedNodes =
     (case mergeDeleted K lg oldRootHash deletedNodes of
        Inl f \<Rightarrow> Inl f
      | Inr lg1 \<Rightarrow> mergeInserted K lg1 newRootNode insertedNodes)"


section \<open>Operation results\<close>

text \<open>
  \<^verbatim>\<open>insertResult\<close> embeds \<^verbatim>\<open>operationResult\<close> and adds nothing; \<^verbatim>\<open>deleteResult\<close> embeds it
  and adds \<^verbatim>\<open>hasChanged\<close>.
\<close>

record operationResult =
  newNode :: "node option"
  insertedNodes :: "node list"
  deletedNodes :: "node list"

record deleteResult = operationResult +
  hasChanged :: bool

definition newInsertResult :: "node option \<Rightarrow> operationResult" where
  "newInsertResult n = \<lparr>newNode = n, insertedNodes = [], deletedNodes = []\<rparr>"

definition newDeleteResult :: "node option \<Rightarrow> bool \<Rightarrow> deleteResult" where
  "newDeleteResult n changed =
     \<lparr>newNode = n, insertedNodes = [], deletedNodes = [], hasChanged = changed\<rparr>"

definition res_delete :: "'a operationResult_scheme \<Rightarrow> node option \<Rightarrow> 'a operationResult_scheme" where
  "res_delete res n =
     (case n of None \<Rightarrow> res | Some x \<Rightarrow> res\<lparr>deletedNodes := deletedNodes res @ [x]\<rparr>)"

definition res_insert :: "'a operationResult_scheme \<Rightarrow> node option \<Rightarrow> 'a operationResult_scheme" where
  "res_insert res n =
     (case n of None \<Rightarrow> res | Some x \<Rightarrow> res\<lparr>insertedNodes := insertedNodes res @ [x]\<rparr>)"

definition mergeFromInsertResult ::
  "(bytes \<Rightarrow> bytes) \<Rightarrow> updateLog \<Rightarrow> bytes \<Rightarrow> operationResult option \<Rightarrow> fault + updateLog" where
  "mergeFromInsertResult K lg oldRootHash result =
     (case result of
        None \<Rightarrow> Inr lg
      | Some r \<Rightarrow> merge K (log_copy lg) oldRootHash (newNode r) (deletedNodes r) (insertedNodes r))"

definition mergeFromDeleteResult ::
  "(bytes \<Rightarrow> bytes) \<Rightarrow> updateLog \<Rightarrow> bytes \<Rightarrow> deleteResult option \<Rightarrow> fault + updateLog" where
  "mergeFromDeleteResult K lg oldRootHash result =
     (case result of
        None \<Rightarrow> Inr lg
      | Some r \<Rightarrow> merge K (log_copy lg) oldRootHash (newNode r) (deletedNodes r) (insertedNodes r))"

section \<open>The trie: construction, resolution and reads\<close>

text \<open>
  The backing store is go-ethereum's \<^verbatim>\<open>ethdb.KeyValueStore\<close>: here the association list
  of its keys and values, which \<^verbatim>\<open>Get\<close> looks up (\<open>None\<close> where \<^verbatim>\<open>Get\<close> returns an
  error). A batch is the list of its operations, which \<^verbatim>\<open>Write\<close> applies in order.

  \<^verbatim>\<open>resolveHash\<close> can write to \<^verbatim>\<open>t.log.cached\<close>: whatever calls it takes the trie and
  returns it, with the result.
\<close>

record Trie =
  db :: hashmap
  rootHash :: bytes
  log :: updateLog

datatype batchOp = BatchPut bytes bytes | BatchDelete bytes

definition NewTrie :: "bytes \<Rightarrow> hashmap \<Rightarrow> Trie" where
  "NewTrie h d = \<lparr>db = d, rootHash = h, log = newUpdateLog\<rparr>"

definition fetchFromDB :: "Trie \<Rightarrow> bytes \<Rightarrow> fault + (Trie \<times> node option \<times> error option)" where
  "fetchFromDB t h =
     (case map_of (db t) h of
        None \<Rightarrow> Inl (PanicMsg ''fetchFromDB: get from db failed'')
      | Some encoded \<Rightarrow>
          if length encoded = 0 then Inl (PanicMsg ''fetchFromDB: get from db failed'')
          else
            (case decodeNode encoded of
               Inl f \<Rightarrow> Inl f
             | Inr (n, err) \<Rightarrow>
                 if err \<noteq> None then Inl (PanicMsg ''fetchFromDB: decodeNode failed'')
                 else Inr (t\<lparr>log := log_cache (log t) h encoded\<rparr>, n, None)))"

definition resolveHash :: "Trie \<Rightarrow> bytes \<Rightarrow> fault + (Trie \<times> node option \<times> error option)" where
  "resolveHash t h =
     (if map_of (deleted (log t)) h \<noteq> None then Inr (t, None, Some ErrNodeDeleted)
      else
        (case map_of (inserted (log t)) h of
           Some ins \<Rightarrow>
             (case decodeNode ins of Inl f \<Rightarrow> Inl f | Inr (n, err) \<Rightarrow> Inr (t, n, err))
         | None \<Rightarrow>
             (case map_of (cached (log t)) h of
                Some c \<Rightarrow>
                  (case decodeNode c of Inl f \<Rightarrow> Inl f | Inr (n, err) \<Rightarrow> Inr (t, n, err))
              | None \<Rightarrow> fetchFromDB t h)))"

text \<open>
  \<^verbatim>\<open>tryGet\<close> follows hash nodes through the store for as long as there are any: the first
  argument is the fuel of the recursion, one unit a call.
\<close>

fun tryGet :: "nat \<Rightarrow> Trie \<Rightarrow> node option \<Rightarrow> bytes \<Rightarrow> fault + (Trie \<times> bytes)" where
  "tryGet 0 t startNode searchKey = Inl OutOfFuel"
| "tryGet (Suc fuel) t startNode searchKey =
     (case startNode of
        Some (leafNode key val) \<Rightarrow>
          if searchKey = key then Inr (t, val) else Inr (t, [])
      | Some (extNode key child) \<Rightarrow>
          if length searchKey < length key then Inr (t, [])
          else if take (length key) searchKey = key
          then tryGet fuel t child (drop (length key) searchKey)
          else Inr (t, [])
      | Some (branchNode children target) \<Rightarrow>
          if length searchKey = 0 then Inr (t, target)
          else if unat (hd searchKey) < 16
          then tryGet fuel t (children ! unat (hd searchKey)) (tl searchKey)
          else Inl IndexOutOfRange
      | Some (hashNode h) \<Rightarrow>
          (case resolveHash t (BytesToHash h) of
             Inl f \<Rightarrow> Inl f
           | Inr (t1, resolved, err) \<Rightarrow>
               if err \<noteq> None then Inr (t1, []) else tryGet fuel t1 resolved searchKey)
      | None \<Rightarrow> Inr (t, []))"

definition Get :: "(bytes \<Rightarrow> bytes) \<Rightarrow> nat \<Rightarrow> Trie \<Rightarrow> bytes \<Rightarrow> fault + (Trie \<times> bytes)" where
  "Get K fuel t key =
     (if rootHash t = EmptyHash K then Inr (t, [])
      else
        (case resolveHash t (rootHash t) of
           Inl f \<Rightarrow> Inl f
         | Inr (t1, rootNode, err) \<Rightarrow>
             if err \<noteq> None then Inr (t1, [])
             else tryGet fuel t1 rootNode (bytesToNibbles key)))"


section \<open>Insert\<close>

text \<open>
  \<^verbatim>\<open>insertToLeaf\<close>, \<^verbatim>\<open>insertToExt\<close> and \<^verbatim>\<open>insertToBranch\<close> call \<^verbatim>\<open>t.insert\<close> back: they
  take it as the parameter \<open>ins\<close>, and \<open>insert_node\<close> below passes itself with the fuel
  that is left. Each takes the fields of the node it works on.
  \<^verbatim>\<open>t.insert\<close> returns nil on a nil node, and every caller reads a field of what it returns
  at once: a nil dereference.
\<close>

type_synonym inserter =
  "Trie \<Rightarrow> node option \<Rightarrow> bytes \<Rightarrow> bytes \<Rightarrow> fault + (Trie \<times> operationResult)"

definition insertToLeaf ::
  "inserter \<Rightarrow> Trie \<Rightarrow> bytes \<Rightarrow> bytes \<Rightarrow> bytes \<Rightarrow> bytes \<Rightarrow> fault + (Trie \<times> operationResult)" where
  "insertToLeaf ins t leafKey leafValue searchKey val =
     (let ml = matchingLength searchKey leafKey; leaf = leafNode leafKey leafValue in
      if ml = length searchKey \<and> ml = length leafKey then
        let newLeaf = leafNode searchKey val in
        Inr (t, res_insert (res_delete (newInsertResult (Some newLeaf)) (Some leaf)) (Some newLeaf))
      else if ml = 0 then
        (if length leafKey = 0 then
           (case ins t (Some (branchWithTarget leafValue)) searchKey val of
              Inl f \<Rightarrow> Inl f
            | Inr (t1, result) \<Rightarrow> Inr (t1, res_insert (res_delete result (Some leaf)) None))
         else
           let maybeLeaf = leafNode (tl leafKey) leafValue in
           (case branchWithChild (unat (hd leafKey)) (Some maybeLeaf) [] of
              Inl f \<Rightarrow> Inl f
            | Inr tempBranch \<Rightarrow>
                (case ins t (Some tempBranch) searchKey val of
                   Inl f \<Rightarrow> Inl f
                 | Inr (t1, result) \<Rightarrow>
                     Inr (t1, res_insert (res_delete result (Some leaf)) (Some maybeLeaf)))))
      else
        let tempNode = (if ml = length leafKey then branchWithTarget leafValue
                        else leafNode (drop ml leafKey) leafValue) in
        (case ins t (Some tempNode) (drop ml searchKey) val of
           Inl f \<Rightarrow> Inl f
         | Inr (t1, result) \<Rightarrow>
             let tempExtNode = extNode (take ml leafKey) (newNode result) in
             Inr (t1, res_insert (res_delete (result\<lparr>newNode := Some tempExtNode\<rparr>) (Some leaf))
                        (Some tempExtNode))))"

definition insertToExt ::
  "inserter \<Rightarrow> Trie \<Rightarrow> bytes \<Rightarrow> node option \<Rightarrow> bytes \<Rightarrow> bytes \<Rightarrow> fault + (Trie \<times> operationResult)" where
  "insertToExt ins t extKey extChild searchKey val =
     (let ml = matchingLength searchKey extKey; ext = extNode extKey extChild in
      if ml = 0 then
        (if length extKey = 1 then
           (case branchWithChild (unat (hd extKey)) extChild [] of
              Inl f \<Rightarrow> Inl f
            | Inr tempBranch \<Rightarrow>
                (case ins t (Some tempBranch) searchKey val of
                   Inl f \<Rightarrow> Inl f
                 | Inr (t1, result) \<Rightarrow> Inr (t1, res_delete (res_insert result None) (Some ext))))
         else if length extKey = 0 then Inl SliceOutOfRange
         else
           let newExt = extNode (tl extKey) extChild in
           (case branchWithChild (unat (hd extKey)) (Some newExt) [] of
              Inl f \<Rightarrow> Inl f
            | Inr tempBranch \<Rightarrow>
                (case ins t (Some tempBranch) searchKey val of
                   Inl f \<Rightarrow> Inl f
                 | Inr (t1, result) \<Rightarrow>
                     Inr (t1, res_delete (res_insert result (Some newExt)) (Some ext)))))
      else if ml = length extKey then
        (case ins t extChild (drop ml searchKey) val of
           Inl f \<Rightarrow> Inl f
         | Inr (t1, result) \<Rightarrow>
             let newExt = extNode extKey (newNode result) in
             Inr (t1, res_delete (res_insert (result\<lparr>newNode := Some newExt\<rparr>) (Some newExt))
                        (Some ext)))
      else
        let tempExt = extNode (drop ml extKey) extChild in
        (case ins t (Some tempExt) (drop ml searchKey) val of
           Inl f \<Rightarrow> Inl f
         | Inr (t1, result) \<Rightarrow>
             let newExt = extNode (take ml extKey) (newNode result) in
             Inr (t1, res_delete (res_insert (result\<lparr>newNode := Some newExt\<rparr>) (Some newExt))
                        (Some ext))))"

definition insertToBranch ::
  "inserter \<Rightarrow> Trie \<Rightarrow> node option list \<Rightarrow> bytes \<Rightarrow> bytes \<Rightarrow> bytes
     \<Rightarrow> fault + (Trie \<times> operationResult)" where
  "insertToBranch ins t children target searchKey val =
     (let branch = branchNode children target in
      if length searchKey = 0 then
        let newBranch = updateTarget children val in
        Inr (t, res_delete (res_insert (newInsertResult (Some newBranch)) (Some newBranch))
                  (Some branch))
      else
        let pos = unat (hd searchKey) in
        if \<not> pos < 16 then Inl IndexOutOfRange
        else if children ! pos \<noteq> None then
          (case ins t (children ! pos) (tl searchKey) val of
             Inl f \<Rightarrow> Inl f
           | Inr (t1, result) \<Rightarrow>
               (case updateChild children target pos (newNode result) of
                  Inl f \<Rightarrow> Inl f
                | Inr newBranch \<Rightarrow>
                    Inr (t1, res_delete
                               (res_insert (result\<lparr>newNode := Some newBranch\<rparr>) (Some newBranch))
                               (Some branch))))
        else
          let newLeaf = leafNode (tl searchKey) val in
          (case updateChild children target pos (Some newLeaf) of
             Inl f \<Rightarrow> Inl f
           | Inr newBranch \<Rightarrow>
               Inr (t, res_delete
                         (res_insert (res_insert (newInsertResult (Some newBranch)) (Some newBranch))
                            (Some newLeaf))
                         (Some branch))))"

primrec insert_node :: "nat \<Rightarrow> inserter" where
  "insert_node 0 = (\<lambda>t startNode searchKey val. Inl OutOfFuel)"
| "insert_node (Suc fuel) = (\<lambda>t startNode searchKey val.
     (case startNode of
        Some (leafNode key v) \<Rightarrow> insertToLeaf (insert_node fuel) t key v searchKey val
      | Some (extNode key child) \<Rightarrow> insertToExt (insert_node fuel) t key child searchKey val
      | Some (branchNode children target) \<Rightarrow>
          insertToBranch (insert_node fuel) t children target searchKey val
      | Some (hashNode h) \<Rightarrow>
          (case resolveHash t (BytesToHash h) of
             Inl f \<Rightarrow> Inl f
           | Inr (t1, resolved, err) \<Rightarrow>
               if err \<noteq> None then Inl (PanicMsg ''insert: can't resolve hashNode'')
               else insert_node fuel t1 resolved searchKey val)
      | None \<Rightarrow> Inl NilDereference))"

text \<open>
  \<^verbatim>\<open>Insert\<close> returns the new trie; the receiver comes back with it, since resolving may
  have written to its cache.
\<close>

definition Insert ::
  "(bytes \<Rightarrow> bytes) \<Rightarrow> nat \<Rightarrow> Trie \<Rightarrow> bytes \<Rightarrow> bytes \<Rightarrow> fault + (Trie \<times> Trie)" where
  "Insert K fuel t key val =
     (let searchKey = bytesToNibbles key in
      case (if rootHash t = EmptyHash K then
              let newRootNode = leafNode searchKey val in
              Inr (t, res_insert (newInsertResult (Some newRootNode)) (Some newRootNode))
            else
              (case resolveHash t (rootHash t) of
                 Inl f \<Rightarrow> Inl f
               | Inr (t1, rootNode, err) \<Rightarrow>
                   if err \<noteq> None then Inl (PanicMsg ''Insert: can't resolve rootHash'')
                   else insert_node fuel t1 rootNode searchKey val)) of
        Inl f \<Rightarrow> Inl f
      | Inr (t1, result) \<Rightarrow>
          (case newNode result of
             None \<Rightarrow> Inl NilDereference
           | Some newRootNode \<Rightarrow>
               (case Hash K newRootNode of
                  Inl f \<Rightarrow> Inl f
                | Inr h \<Rightarrow>
                    (case mergeFromInsertResult K (log t1) (rootHash t) (Some result) of
                       Inl f \<Rightarrow> Inl f
                     | Inr newLog \<Rightarrow> Inr (t1, \<lparr>db = db t, rootHash = h, log = newLog\<rparr>)))))"

section \<open>Delete and fix\<close>

fun getNodeFrom :: "(bytes \<Rightarrow> bytes) \<Rightarrow> node list \<Rightarrow> bytes \<Rightarrow> fault + node option" where
  "getNodeFrom K [] h = Inr None"
| "getNodeFrom K (n # ns) h =
     (case Hash K n of
        Inl f \<Rightarrow> Inl f
      | Inr nh \<Rightarrow> if nh = h then Inr (Some n) else getNodeFrom K ns h)"

definition concat_b :: "bytes \<Rightarrow> bytes \<Rightarrow> bytes" where
  "concat_b a b = (if a = [] then b else if b = [] then a else a @ b)"

definition tryFixExt ::
  "(bytes \<Rightarrow> bytes) \<Rightarrow> Trie \<Rightarrow> bytes \<Rightarrow> node option \<Rightarrow> node list \<Rightarrow> fault + (Trie \<times> node)" where
  "tryFixExt K t extKey extChild updates =
     (case (case extChild of
              Some (hashNode h) \<Rightarrow>
                (case getNodeFrom K updates (BytesToHash h) of
                   Inl f \<Rightarrow> Inl f
                 | Inr (Some c) \<Rightarrow> Inr (t, Some c)
                 | Inr None \<Rightarrow>
                     (case resolveHash t (BytesToHash h) of
                        Inl f \<Rightarrow> Inl f
                      | Inr (t1, c, err) \<Rightarrow>
                          if err \<noteq> None
                          then Inl (PanicMsg ''tryFixExt: can't resolve child, maybe because of can't get node from updates'')
                          else Inr (t1, c)))
            | other \<Rightarrow> Inr (t, other)) of
        Inl f \<Rightarrow> Inl f
      | Inr (t1, child) \<Rightarrow>
          (case child of
             Some (extNode k c) \<Rightarrow> Inr (t1, extNode (concat_b extKey k) c)
           | Some (leafNode k v) \<Rightarrow> Inr (t1, leafNode (concat_b extKey k) v)
           | other \<Rightarrow> Inr (t1, extNode extKey extChild)))"

text \<open>
  \<^verbatim>\<open>tryFixBranch\<close> hands the extension it builds to \<^verbatim>\<open>t.tryFix\<close>, which hands an extension
  to \<^verbatim>\<open>tryFixExt\<close>.
\<close>

definition tryFixBranch ::
  "(bytes \<Rightarrow> bytes) \<Rightarrow> Trie \<Rightarrow> node option list \<Rightarrow> bytes \<Rightarrow> node list \<Rightarrow> fault + (Trie \<times> node)" where
  "tryFixBranch K t children target updates =
     (let index = childrenIndex children in
      if length index = 0 \<and> hasTarget target then Inr (t, leafNode [] target)
      else if length index = 1 \<and> \<not> hasTarget target then
        let idx = index ! 0 in
        tryFixExt K t [of_nat idx] (children ! idx) updates
      else if length index = 0 \<and> \<not> hasTarget target then
        Inl (PanicMsg ''tryFixBranch: invalid branch state, no children and no target'')
      else Inr (t, branchNode children target))"

definition tryFix ::
  "(bytes \<Rightarrow> bytes) \<Rightarrow> Trie \<Rightarrow> node \<Rightarrow> node list \<Rightarrow> fault + (Trie \<times> node)" where
  "tryFix K t startNode updates =
     (case startNode of
        branchNode children target \<Rightarrow> tryFixBranch K t children target updates
      | extNode key child \<Rightarrow> tryFixExt K t key child updates
      | other \<Rightarrow> Inr (t, other))"

type_synonym deleter = "Trie \<Rightarrow> node option \<Rightarrow> bytes \<Rightarrow> fault + (Trie \<times> deleteResult)"

definition deleteFromLeaf :: "bytes \<Rightarrow> bytes \<Rightarrow> bytes \<Rightarrow> deleteResult" where
  "deleteFromLeaf leafKey leafValue searchKey =
     (if searchKey = leafKey
      then res_delete (newDeleteResult None True) (Some (leafNode leafKey leafValue))
      else newDeleteResult None False)"

definition deleteFromExt ::
  "deleter \<Rightarrow> (bytes \<Rightarrow> bytes) \<Rightarrow> Trie \<Rightarrow> bytes \<Rightarrow> node option \<Rightarrow> bytes
     \<Rightarrow> fault + (Trie \<times> deleteResult)" where
  "deleteFromExt del K t extKey extChild searchKey =
     (let ml = matchingLength extKey searchKey in
      if ml \<noteq> length extKey then Inr (t, newDeleteResult None False)
      else
        (case del t extChild (drop ml searchKey) of
           Inl f \<Rightarrow> Inl f
         | Inr (t1, result) \<Rightarrow>
             if \<not> hasChanged result then Inr (t1, result)
             else
               (case tryFix K t1 (extNode extKey (newNode result)) (insertedNodes result) of
                  Inl f \<Rightarrow> Inl f
                | Inr (t2, fixedNode) \<Rightarrow>
                    Inr (t2, res_delete
                               (res_insert (result\<lparr>newNode := Some fixedNode\<rparr>) (Some fixedNode))
                               (Some (extNode extKey extChild))))))"

definition deleteFromBranch ::
  "deleter \<Rightarrow> (bytes \<Rightarrow> bytes) \<Rightarrow> Trie \<Rightarrow> node option list \<Rightarrow> bytes \<Rightarrow> bytes
     \<Rightarrow> fault + (Trie \<times> deleteResult)" where
  "deleteFromBranch del K t children target searchKey =
     (let branch = branchNode children target in
      if length searchKey = 0 \<and> hasTarget target then
        (case tryFix K t (branchWithChildren children) [] of
           Inl f \<Rightarrow> Inl f
         | Inr (t1, fixedNode) \<Rightarrow>
             Inr (t1, res_delete
                        (res_insert (newDeleteResult (Some fixedNode) True) (Some fixedNode))
                        (Some branch)))
      else if length searchKey = 0 \<and> \<not> hasTarget target then Inr (t, newDeleteResult None False)
      else
        let childIndex = unat (hd searchKey) in
        if \<not> childIndex < 16 then Inl IndexOutOfRange
        else if children ! childIndex = None then Inr (t, newDeleteResult None False)
        else
          (case del t (children ! childIndex) (tl searchKey) of
             Inl f \<Rightarrow> Inl f
           | Inr (t1, result) \<Rightarrow>
               if \<not> hasChanged result then Inr (t1, result)
               else
                 (case updateChild children target childIndex (newNode result) of
                    Inl f \<Rightarrow> Inl f
                  | Inr tempBranch \<Rightarrow>
                      (case tryFix K t1 tempBranch (insertedNodes result) of
                         Inl f \<Rightarrow> Inl f
                       | Inr (t2, fixedNode) \<Rightarrow>
                           Inr (t2, res_delete
                                      (res_insert (result\<lparr>newNode := Some fixedNode\<rparr>)
                                         (Some fixedNode))
                                      (Some branch))))))"

primrec delete_node :: "(bytes \<Rightarrow> bytes) \<Rightarrow> nat \<Rightarrow> deleter" where
  "delete_node K 0 = (\<lambda>t startNode searchKey. Inl OutOfFuel)"
| "delete_node K (Suc fuel) = (\<lambda>t startNode searchKey.
     (case startNode of
        Some (leafNode key v) \<Rightarrow> Inr (t, deleteFromLeaf key v searchKey)
      | Some (extNode key child) \<Rightarrow> deleteFromExt (delete_node K fuel) K t key child searchKey
      | Some (branchNode children target) \<Rightarrow>
          deleteFromBranch (delete_node K fuel) K t children target searchKey
      | Some (hashNode h) \<Rightarrow>
          (case resolveHash t (BytesToHash h) of
             Inl f \<Rightarrow> Inl f
           | Inr (t1, resolved, err) \<Rightarrow>
               if err \<noteq> None then Inl (PanicMsg ''delete: can't resolve hashNode'')
               else delete_node K fuel t1 resolved searchKey)
      | None \<Rightarrow> Inl NilDereference))"

text \<open>
  \<^verbatim>\<open>Delete\<close> returns the receiver itself when nothing changes: the second trie of the
  result is then the first.
\<close>

definition Delete ::
  "(bytes \<Rightarrow> bytes) \<Rightarrow> nat \<Rightarrow> Trie \<Rightarrow> bytes \<Rightarrow> fault + (Trie \<times> Trie)" where
  "Delete K fuel t key =
     (if rootHash t = EmptyHash K then Inr (t, t)
      else
        let searchKey = bytesToNibbles key in
        (case resolveHash t (rootHash t) of
           Inl f \<Rightarrow> Inl f
         | Inr (t1, rootNode, err) \<Rightarrow>
             if err \<noteq> None then Inl (PanicMsg ''Delete: can't resolve rootHash'')
             else
               (case delete_node K fuel t1 rootNode searchKey of
                  Inl f \<Rightarrow> Inl f
                | Inr (t2, result) \<Rightarrow>
                    if \<not> hasChanged result then Inr (t2, t2)
                    else
                      (case (case newNode result of
                               None \<Rightarrow> Inr (EmptyHash K)
                             | Some n \<Rightarrow> Hash K n) of
                         Inl f \<Rightarrow> Inl f
                       | Inr newRootHash \<Rightarrow>
                           (case mergeFromDeleteResult K (log t2) (rootHash t) (Some result) of
                              Inl f \<Rightarrow> Inl f
                            | Inr newLog \<Rightarrow>
                                Inr (t2, \<lparr>db = db t, rootHash = newRootHash, log = newLog\<rparr>))))))"

section \<open>Persistence\<close>

definition CommitToBatch :: "Trie \<Rightarrow> batchOp list \<Rightarrow> batchOp list" where
  "CommitToBatch t batch =
     batch @ map (\<lambda>(k, v). BatchPut k v) (inserted (log t))
           @ map (\<lambda>(k, v). BatchDelete k) (deleted (log t))"

fun writeBatch :: "hashmap \<Rightarrow> batchOp list \<Rightarrow> hashmap" where
  "writeBatch d [] = d"
| "writeBatch d (BatchPut k v # ops) = writeBatch (AList.update k v d) ops"
| "writeBatch d (BatchDelete k # ops) = writeBatch (AList.delete k d) ops"

text \<open>\<^verbatim>\<open>Persist\<close> gives the store as the batch leaves it.\<close>

definition Persist :: "Trie \<Rightarrow> hashmap" where
  "Persist t = writeBatch (db t) (CommitToBatch t [])"

definition StateRoot :: "Trie \<Rightarrow> bytes" where
  "StateRoot t = rootHash t"


section \<open>A digest to run the model with\<close>

text \<open>
  The digest that the closed examples below compute with: a byte string of up to 32 bytes
  is its own digest (\<open>Keccak256Hash\<close> pads it to 32), a longer one is folded by XOR, 32
  bytes at a time.
\<close>

fun xorPad :: "bytes \<Rightarrow> bytes \<Rightarrow> bytes" where
  "xorPad [] ys = ys"
| "xorPad xs [] = xs"
| "xorPad (x # xs) (y # ys) = (x XOR y) # xorPad xs ys"

function K0 :: "bytes \<Rightarrow> bytes" where
  "K0 bs = (if length bs \<le> 32 then bs else xorPad (take 32 bs) (K0 (drop 32 bs)))"
  by pat_completeness auto
termination
  by (relation "measure length") auto

declare K0.simps [simp del]

section \<open>A new trie has an empty journal\<close>

text \<open>
  C10: every trie that \<^verbatim>\<open>NewTrie\<close> returns has a journal whose cached, inserted and deleted
  maps are empty; so \<^verbatim>\<open>CommitToBatch\<close> adds no put and no delete to the batch and
  \<^verbatim>\<open>Persist\<close> leaves the store as it is, and a trie reloaded from the root of another
  has none of that trie's journal entries.
\<close>
theorem NewTrie_empty_journal:
  "cached (log (NewTrie h d)) = [] \<and> inserted (log (NewTrie h d)) = [] \<and>
   deleted (log (NewTrie h d)) = [] \<and>
   CommitToBatch (NewTrie h d) batch = batch \<and>
   Persist (NewTrie h d) = d \<and>
   log (NewTrie (rootHash t) (db t)) = newUpdateLog"
  by (simp add: NewTrie_def newUpdateLog_def CommitToBatch_def Persist_def)

section \<open>The journal never holds a hash as inserted and as deleted\<close>

text \<open>
  The operations of the update log, and a run of them from a given log; a merge that panics
  ends the run.
\<close>

datatype logOp =
    OpCache bytes bytes
  | OpInsert bytes bytes
  | OpDelete bytes
  | OpCopy
  | OpMerge bytes "node option" "node list" "node list"

fun applyOp :: "(bytes \<Rightarrow> bytes) \<Rightarrow> updateLog \<Rightarrow> logOp \<Rightarrow> fault + updateLog" where
  "applyOp K lg (OpCache k v) = Inr (log_cache lg k v)"
| "applyOp K lg (OpInsert k v) = Inr (log_insert lg k v)"
| "applyOp K lg (OpDelete k) = Inr (log_delete lg k)"
| "applyOp K lg OpCopy = Inr (log_copy lg)"
| "applyOp K lg (OpMerge old r dels ins) = merge K lg old r dels ins"

fun applyOps :: "(bytes \<Rightarrow> bytes) \<Rightarrow> updateLog \<Rightarrow> logOp list \<Rightarrow> fault + updateLog" where
  "applyOps K lg [] = Inr lg"
| "applyOps K lg (op # ops) =
     (case applyOp K lg op of Inl f \<Rightarrow> Inl f | Inr lg' \<Rightarrow> applyOps K lg' ops)"

definition disjointLog :: "updateLog \<Rightarrow> bool" where
  "disjointLog lg = (\<forall>k \<in> set (map fst (inserted lg)). k \<notin> set (map fst (deleted lg)))"

lemma keys_update: "fst ` set (AList.update k v al) = insert k (fst ` set al)"
  by (induction al) auto

lemma keys_delete: "fst ` set (AList.delete k al) = fst ` set al - {k}"
  by (induction al) auto

lemma disjointLog_alt: "disjointLog lg \<longleftrightarrow> fst ` set (inserted lg) \<inter> fst ` set (deleted lg) = {}"
  by (auto simp: disjointLog_def)

lemma disjointLog_new: "disjointLog newUpdateLog"
  by (simp add: disjointLog_def newUpdateLog_def)

lemma disjointLog_cache: "disjointLog lg \<Longrightarrow> disjointLog (log_cache lg k v)"
  by (simp add: disjointLog_alt log_cache_def)

lemma disjointLog_insert: "disjointLog lg \<Longrightarrow> disjointLog (log_insert lg k v)"
  by (auto simp: disjointLog_alt log_insert_def keys_update keys_delete)

lemma disjointLog_delete: "disjointLog lg \<Longrightarrow> disjointLog (log_delete lg k)"
  by (auto simp: disjointLog_alt log_delete_def keys_update keys_delete)

lemma disjointLog_copy: "disjointLog lg \<Longrightarrow> disjointLog (log_copy lg)"
  by (force simp: disjointLog_alt log_copy_def)

lemma disjointLog_mergeDeleted:
  "disjointLog lg \<Longrightarrow> mergeDeleted K lg old dels = Inr lg' \<Longrightarrow> disjointLog lg'"
  by (induction dels arbitrary: lg)
     (auto split: sum.splits if_splits intro: disjointLog_delete)

lemma disjointLog_mergeInserted:
  "disjointLog lg \<Longrightarrow> mergeInserted K lg r ins = Inr lg' \<Longrightarrow> disjointLog lg'"
  by (induction ins arbitrary: lg)
     (auto split: sum.splits if_splits intro: disjointLog_insert)

lemma disjointLog_merge:
  "disjointLog lg \<Longrightarrow> merge K lg old r dels ins = Inr lg' \<Longrightarrow> disjointLog lg'"
  by (auto simp: merge_def split: sum.splits
      dest: disjointLog_mergeDeleted disjointLog_mergeInserted)

lemma disjointLog_applyOp:
  "disjointLog lg \<Longrightarrow> applyOp K lg op = Inr lg' \<Longrightarrow> disjointLog lg'"
  by (cases op)
     (auto intro: disjointLog_cache disjointLog_insert disjointLog_delete disjointLog_copy
        disjointLog_merge)

lemma disjointLog_applyOps:
  "disjointLog lg \<Longrightarrow> applyOps K lg ops = Inr lg' \<Longrightarrow> disjointLog lg'"
  by (induction ops arbitrary: lg) (auto split: sum.splits dest: disjointLog_applyOp)

text \<open>
  C8: in every update log reached from the fresh log by a sequence of cache, insert, delete,
  copy and merge operations, no hash is a key of both the inserted and the deleted map;
  inserting a hash takes it out of the deleted map and deleting a hash takes it out of the
  inserted map.
\<close>

theorem log_inserted_deleted_disjoint:
  assumes "applyOps K newUpdateLog ops = Inr lg"
  shows "fst ` set (inserted lg) \<inter> fst ` set (deleted lg) = {}
         \<and> map_of (deleted (log_insert lg k v)) k = None
         \<and> map_of (inserted (log_delete lg k)) k = None"
proof -
  have "disjointLog lg"
    using disjointLog_applyOps [OF disjointLog_new assms] .
  then show ?thesis
    by (simp add: disjointLog_alt log_insert_def log_delete_def delete_conv')
qed

theorem log_inserted_deleted_disjoint_witness:
  "applyOps K0 newUpdateLog
     [OpInsert [1] [2], OpDelete [1], OpCopy, OpInsert [3] [4], OpCache [5] [6],
      OpMerge [9] (Some (leafNode [1, 2] [1, 2])) [leafNode [3] [4]] [leafNode [1, 2] [1, 2]]]
   = Inr \<lparr>cached = [([5], [6])],
          inserted = [([3], [4]), (BytesToHash [1, 0x12, 2, 1, 2, 0], [1, 0x12, 2, 1, 2, 0])],
          deleted = [([1], [])]\<rparr>
   \<and> fst ` set [([3], [4]), (BytesToHash [1, 0x12, 2, 1, 2, 0], [1, 0x12, 2, 1, 2, 0 :: byte])]
       \<inter> fst ` set [([1], [] :: bytes)] = {}"
proof -
  have run: "applyOps K0 newUpdateLog
     [OpInsert [1] [2], OpDelete [1], OpCopy, OpInsert [3] [4], OpCache [5] [6],
      OpMerge [9] (Some (leafNode [1, 2] [1, 2])) [leafNode [3] [4]] [leafNode [1, 2] [1, 2]]]
   = Inr \<lparr>cached = [([5], [6])],
          inserted = [([3], [4]), (BytesToHash [1, 0x12, 2, 1, 2, 0], [1, 0x12, 2, 1, 2, 0])],
          deleted = [([1], [])]\<rparr>"
    by code_simp
  from log_inserted_deleted_disjoint [OF run] show ?thesis
    using run by simp
qed

section \<open>What merge records as inserted\<close>

lemma mergeInserted_lookup:
  assumes "mergeInserted K lg r ins = Inr lg'"
    and "newRootCappedOf K r = Inr rc"
    and "\<forall>m \<in> set ins. Hash K m = Inr h \<longrightarrow> Encode K m = Inr e \<and> Capped K m = Inr c"
  shows "map_of (inserted lg') h =
           (if (\<exists>m \<in> set ins. Hash K m = Inr h) \<and> (length c = HashLength \<or> c = rc)
            then Some e else map_of (inserted lg) h)"
  using assms
proof (induction ins arbitrary: lg)
  case Nil
  then show ?case by simp
next
  case (Cons n ns)
  from Cons.prems(1,2) obtain cn where cn: "Capped K n = Inr cn"
    by (auto split: sum.splits)
  show ?case
  proof (cases "length cn = HashLength \<or> cn = rc")
    case True
    with Cons.prems(1,2) cn obtain hn en where hn: "Hash K n = Inr hn" and en: "Encode K n = Inr en"
      and rest: "mergeInserted K (log_insert lg hn en) r ns = Inr lg'"
      by (auto split: sum.splits)
    have ih: "map_of (inserted lg') h =
           (if (\<exists>m \<in> set ns. Hash K m = Inr h) \<and> (length c = HashLength \<or> c = rc)
            then Some e else map_of (inserted (log_insert lg hn en)) h)"
      using Cons.IH [OF rest Cons.prems(2)] Cons.prems(3) by simp
    show ?thesis
    proof (cases "hn = h")
      case True
      with hn en cn Cons.prems(3) have "en = e" "cn = c" by auto
      with ih True \<open>length cn = HashLength \<or> cn = rc\<close> hn show ?thesis
        by (auto simp: log_insert_def update_conv')
    next
      case False
      with ih hn show ?thesis
        by (auto simp: log_insert_def update_conv')
    qed
  next
    case False
    with Cons.prems(1,2) cn have rest: "mergeInserted K lg r ns = Inr lg'"
      by (auto split: sum.splits)
    have ih: "map_of (inserted lg') h =
           (if (\<exists>m \<in> set ns. Hash K m = Inr h) \<and> (length c = HashLength \<or> c = rc)
            then Some e else map_of (inserted lg) h)"
      using Cons.IH [OF rest Cons.prems(2)] Cons.prems(3) by simp
    show ?thesis
    proof (cases "Hash K n = Inr h")
      case True
      with cn Cons.prems(3) have "cn = c" by auto
      with ih False show ?thesis by auto
    next
      case False
      with ih show ?thesis by auto
    qed
  qed
qed

text \<open>
  C5: in a call of \<^verbatim>\<open>merge\<close> with new root \<open>r\<close> and inserted nodes \<open>ins\<close>, a node \<open>n\<close> of
  \<open>ins\<close> is recorded in \<^verbatim>\<open>log.inserted\<close> under its hash with its encoding if and only if
  its capped form has 32 bytes or is the capped form of the new root (\<open>EmptyHash\<close> when
  there is none): when the condition holds the entry is there after the call, and when it
  fails the call leaves under that hash what the loop over the deleted nodes left, so that
  an entry that was not there is not there. In particular the new root is recorded when it is
  among \<open>ins\<close>, also when its encoding is below 32 bytes. The nodes of \<open>ins\<close> that share the
  hash of \<open>n\<close> are taken to share its encoding and capped form (no collision of the digest).
\<close>

theorem merge_records_inserted:
  assumes "merge K lg old r dels ins = Inr lg'"
    and "mergeDeleted K lg old dels = Inr lg1"
    and "n \<in> set ins"
    and "Capped K n = Inr c" and "newRootCappedOf K r = Inr rc"
    and "Hash K n = Inr h" and "Encode K n = Inr e"
    and "\<forall>m \<in> set ins. Hash K m = Inr h \<longrightarrow> Encode K m = Inr e \<and> Capped K m = Inr c"
  shows "map_of (inserted lg') h =
           (if length c = HashLength \<or> c = rc then Some e else map_of (inserted lg1) h)
         \<and> (r = Some n \<longrightarrow> map_of (inserted lg') h = Some e)"
proof -
  from assms(1,2) have mi: "mergeInserted K lg1 r ins = Inr lg'"
    by (simp add: merge_def)
  have ex: "\<exists>m \<in> set ins. Hash K m = Inr h"
    using assms(3,6) by blast
  have main: "map_of (inserted lg') h =
           (if length c = HashLength \<or> c = rc then Some e else map_of (inserted lg1) h)"
    using mergeInserted_lookup [OF mi assms(5) assms(8)] ex by simp
  have "c = rc" if "r = Some n"
    using that assms(4,5) by (simp add: newRootCappedOf_def)
  with main show ?thesis by simp
qed

theorem merge_records_inserted_witness:
  "merge K0 newUpdateLog (EmptyHash K0) (Some (leafNode [1, 2] [1, 2])) [] [leafNode [1, 2] [1, 2]]
     = Inr \<lparr>cached = [], inserted = [(BytesToHash [1, 0x12, 2, 1, 2, 0], [1, 0x12, 2, 1, 2, 0])],
            deleted = []\<rparr>
   \<and> length [1, 0x12, 2, 1, 2, 0 :: byte] < HashLength
   \<and> map_of (inserted \<lparr>cached = [],
                inserted = [(BytesToHash [1, 0x12, 2, 1, 2, 0], [1, 0x12, 2, 1, 2, 0])],
                deleted = []\<rparr>) (BytesToHash [1, 0x12, 2, 1, 2, 0])
       = Some [1, 0x12, 2, 1, 2, 0]"
proof -
  let ?L = "leafNode [1, 2] [1, 2]"
  let ?e = "[1, 0x12, 2, 1, 2, 0] :: bytes"
  let ?lg = "\<lparr>cached = [], inserted = [(BytesToHash ?e, ?e)], deleted = []\<rparr>"
  have m: "merge K0 newUpdateLog (EmptyHash K0) (Some ?L) [] [?L] = Inr ?lg"
    by code_simp
  have d: "mergeDeleted K0 newUpdateLog (EmptyHash K0) [] = Inr newUpdateLog"
    by simp
  have c: "Capped K0 ?L = Inr ?e" by code_simp
  have rc: "newRootCappedOf K0 (Some ?L) = Inr ?e" by code_simp
  have h: "Hash K0 ?L = Inr (BytesToHash ?e)" by code_simp
  have e: "Encode K0 ?L = Inr ?e" by code_simp
  have same: "\<forall>m \<in> set [?L]. Hash K0 m = Inr (BytesToHash ?e) \<longrightarrow>
                Encode K0 m = Inr ?e \<and> Capped K0 m = Inr ?e"
    using c e by simp
  have len: "length ?e < HashLength" by (simp add: HashLength_def)
  from merge_records_inserted [OF m d _ c rc h e same] m len
  show ?thesis by simp
qed

section \<open>The order of resolution\<close>

text \<open>
  C6: \<^verbatim>\<open>resolveHash\<close> of a hash \<open>h\<close> returns the "node has been deleted" error when \<open>h\<close> is
  in \<^verbatim>\<open>log.deleted\<close>; otherwise it decodes \<^verbatim>\<open>log.inserted[h]\<close> when there is one; otherwise
  it decodes \<^verbatim>\<open>log.cached[h]\<close> when there is one; otherwise it fetches the bytes from the
  store, decodes them and writes them to \<^verbatim>\<open>log.cached\<close>, leaving the other two maps alone.
\<close>

theorem resolveHash_order:
  "(map_of (deleted (log t)) h \<noteq> None \<longrightarrow>
      resolveHash t h = Inr (t, None, Some ErrNodeDeleted))
   \<and> (map_of (deleted (log t)) h = None \<and> map_of (inserted (log t)) h = Some bs \<longrightarrow>
      resolveHash t h =
        (case decodeNode bs of Inl f \<Rightarrow> Inl f | Inr (n, err) \<Rightarrow> Inr (t, n, err)))
   \<and> (map_of (deleted (log t)) h = None \<and> map_of (inserted (log t)) h = None \<and>
      map_of (cached (log t)) h = Some bs \<longrightarrow>
      resolveHash t h =
        (case decodeNode bs of Inl f \<Rightarrow> Inl f | Inr (n, err) \<Rightarrow> Inr (t, n, err)))
   \<and> (map_of (deleted (log t)) h = None \<and> map_of (inserted (log t)) h = None \<and>
      map_of (cached (log t)) h = None \<and> map_of (db t) h = Some bs \<and> bs \<noteq> [] \<and>
      decodeNode bs = Inr (n, None) \<longrightarrow>
      resolveHash t h = Inr (t\<lparr>log := log_cache (log t) h bs\<rparr>, n, None) \<and>
      map_of (cached (log_cache (log t) h bs)) h = Some bs \<and>
      inserted (log_cache (log t) h bs) = inserted (log t) \<and>
      deleted (log_cache (log t) h bs) = deleted (log t))"
  by (auto simp: resolveHash_def fetchFromDB_def log_cache_def update_conv')

theorem resolveHash_order_witness:
  "resolveHash (NewTrie [] []\<lparr>log := log_delete newUpdateLog [7]\<rparr>) [7]
     = Inr (NewTrie [] []\<lparr>log := log_delete newUpdateLog [7]\<rparr>, None, Some ErrNodeDeleted)
   \<and> resolveHash (NewTrie [] [([7], [1, 0x12, 2, 1, 2, 0])]) [7]
     = Inr (NewTrie [] [([7], [1, 0x12, 2, 1, 2, 0])]
              \<lparr>log := log_cache newUpdateLog [7] [1, 0x12, 2, 1, 2, 0]\<rparr>,
            Some (leafNode [1, 2] [1, 2]), None)"
proof -
  let ?t1 = "NewTrie [] []\<lparr>log := log_delete newUpdateLog [7]\<rparr>"
  let ?bs = "[1, 0x12, 2, 1, 2, 0] :: bytes"
  let ?t2 = "NewTrie [] [([7], ?bs)]"
  have a: "map_of (deleted (log ?t1)) [7] \<noteq> None"
    by (simp add: NewTrie_def log_delete_def newUpdateLog_def)
  have b: "map_of (deleted (log ?t2)) [7] = None \<and> map_of (inserted (log ?t2)) [7] = None \<and>
      map_of (cached (log ?t2)) [7] = None \<and> map_of (db ?t2) [7] = Some ?bs \<and> ?bs \<noteq> [] \<and>
      decodeNode ?bs = Inr (Some (leafNode [1, 2] [1, 2]), None)"
  proof -
    have "decodeNode ?bs = Inr (Some (leafNode [1, 2] [1, 2]), None)" by code_simp
    then show ?thesis by (simp add: NewTrie_def newUpdateLog_def)
  qed
  from resolveHash_order [of ?t1 "[7]"] a
  have 1: "resolveHash ?t1 [7] = Inr (?t1, None, Some ErrNodeDeleted)" by blast
  from resolveHash_order [of ?t2 "[7]" ?bs "Some (leafNode [1, 2] [1, 2])"] b
  have 2: "resolveHash ?t2 [7] = Inr (?t2\<lparr>log := log_cache (log ?t2) [7] ?bs\<rparr>,
            Some (leafNode [1, 2] [1, 2]), None)" by blast
  from 1 2 show ?thesis by (simp add: NewTrie_def)
qed


section \<open>Failures of resolution\<close>

text \<open>
  C7, as stated: \<^verbatim>\<open>Get\<close> returns absent, neither an error nor an abort, on every failure
  of resolution, a store miss among them. It does not: on a trie whose root hash the store
  does not hold, \<^verbatim>\<open>fetchFromDB\<close> panics and \<^verbatim>\<open>Get\<close> with it.
\<close>

theorem Get_panics_on_store_miss_counterexample:
  "Get K0 1 (NewTrie (BytesToHash [1]) []) [0x12]
     = Inl (PanicMsg ''fetchFromDB: get from db failed'')"
  by code_simp

text \<open>
  The call that \<^verbatim>\<open>t.insert\<close> makes to itself at a node and a key, through \<^verbatim>\<open>insertToLeaf\<close>,
  \<^verbatim>\<open>insertToExt\<close> and \<^verbatim>\<open>insertToBranch\<close> or after resolving a hash node: the trie, the node
  and the key it passes, and \<open>None\<close> where it returns or panics without calling.
  \<open>insertDescent k\<close> is where the \<open>k\<close>-th call in a row arrives. The same for \<^verbatim>\<open>t.delete\<close>
  (\<^verbatim>\<open>deleteFromExt\<close>, \<^verbatim>\<open>deleteFromBranch\<close>) and for \<^verbatim>\<open>t.tryGet\<close>.
\<close>

definition insertCall :: "Trie \<Rightarrow> node option \<Rightarrow> bytes \<Rightarrow> (Trie \<times> node option \<times> bytes) option" where
  "insertCall t startNode searchKey =
     (case startNode of
        Some (leafNode leafKey leafValue) \<Rightarrow>
          (let ml = matchingLength searchKey leafKey in
           if ml = length searchKey \<and> ml = length leafKey then None
           else if ml = 0 then
             (if length leafKey = 0 then Some (t, Some (branchWithTarget leafValue), searchKey)
              else
                (case branchWithChild (unat (hd leafKey)) (Some (leafNode (tl leafKey) leafValue)) [] of
                   Inl f \<Rightarrow> None
                 | Inr tempBranch \<Rightarrow> Some (t, Some tempBranch, searchKey)))
           else
             Some (t, Some (if ml = length leafKey then branchWithTarget leafValue
                            else leafNode (drop ml leafKey) leafValue), drop ml searchKey))
      | Some (extNode extKey extChild) \<Rightarrow>
          (let ml = matchingLength searchKey extKey in
           if ml = 0 then
             (if length extKey = 1 then
                (case branchWithChild (unat (hd extKey)) extChild [] of
                   Inl f \<Rightarrow> None
                 | Inr tempBranch \<Rightarrow> Some (t, Some tempBranch, searchKey))
              else if length extKey = 0 then None
              else
                (case branchWithChild (unat (hd extKey)) (Some (extNode (tl extKey) extChild)) [] of
                   Inl f \<Rightarrow> None
                 | Inr tempBranch \<Rightarrow> Some (t, Some tempBranch, searchKey)))
           else if ml = length extKey then Some (t, extChild, drop ml searchKey)
           else Some (t, Some (extNode (drop ml extKey) extChild), drop ml searchKey))
      | Some (branchNode children target) \<Rightarrow>
          if length searchKey = 0 then None
          else if \<not> unat (hd searchKey) < 16 then None
          else if children ! unat (hd searchKey) \<noteq> None
          then Some (t, children ! unat (hd searchKey), tl searchKey)
          else None
      | Some (hashNode h) \<Rightarrow>
          (case resolveHash t (BytesToHash h) of
             Inl f \<Rightarrow> None
           | Inr (t1, resolved, err) \<Rightarrow>
               if err \<noteq> None then None else Some (t1, resolved, searchKey))
      | None \<Rightarrow> None)"

fun insertDescent ::
  "nat \<Rightarrow> Trie \<Rightarrow> node option \<Rightarrow> bytes \<Rightarrow> (Trie \<times> node option \<times> bytes) option" where
  "insertDescent 0 t startNode searchKey = Some (t, startNode, searchKey)"
| "insertDescent (Suc k) t startNode searchKey =
     (case insertCall t startNode searchKey of
        None \<Rightarrow> None
      | Some (t1, n, sk) \<Rightarrow> insertDescent k t1 n sk)"

definition deleteCall :: "Trie \<Rightarrow> node option \<Rightarrow> bytes \<Rightarrow> (Trie \<times> node option \<times> bytes) option" where
  "deleteCall t startNode searchKey =
     (case startNode of
        Some (leafNode leafKey leafValue) \<Rightarrow> None
      | Some (extNode extKey extChild) \<Rightarrow>
          (let ml = matchingLength extKey searchKey in
           if ml \<noteq> length extKey then None else Some (t, extChild, drop ml searchKey))
      | Some (branchNode children target) \<Rightarrow>
          if length searchKey = 0 then None
          else if \<not> unat (hd searchKey) < 16 then None
          else if children ! unat (hd searchKey) = None then None
          else Some (t, children ! unat (hd searchKey), tl searchKey)
      | Some (hashNode h) \<Rightarrow>
          (case resolveHash t (BytesToHash h) of
             Inl f \<Rightarrow> None
           | Inr (t1, resolved, err) \<Rightarrow>
               if err \<noteq> None then None else Some (t1, resolved, searchKey))
      | None \<Rightarrow> None)"

fun deleteDescent ::
  "nat \<Rightarrow> Trie \<Rightarrow> node option \<Rightarrow> bytes \<Rightarrow> (Trie \<times> node option \<times> bytes) option" where
  "deleteDescent 0 t startNode searchKey = Some (t, startNode, searchKey)"
| "deleteDescent (Suc k) t startNode searchKey =
     (case deleteCall t startNode searchKey of
        None \<Rightarrow> None
      | Some (t1, n, sk) \<Rightarrow> deleteDescent k t1 n sk)"

lemma insert_node_call:
  assumes "insertCall t n sk = Some (t', n', sk')" "insert_node fuel t' n' sk' v = Inl f"
  shows "insert_node (Suc fuel) t n sk v = Inl f"
proof (cases n)
  case None
  with assms show ?thesis by (simp add: insertCall_def)
next
  case (Some m)
  show ?thesis
  proof (cases m)
    case (leafNode k lv)
    with Some assms show ?thesis
      by (auto simp: insertCall_def insertToLeaf_def Let_def split: if_splits sum.splits)
  next
    case (extNode k c)
    with Some assms show ?thesis
      by (auto simp: insertCall_def insertToExt_def Let_def split: if_splits sum.splits)
  next
    case (branchNode cs tg)
    with Some assms(1) have c: "sk \<noteq> []" "unat (hd sk) < 16" "cs ! unat (hd sk) \<noteq> None"
      "t' = t" "n' = cs ! unat (hd sk)" "sk' = tl sk"
      by (auto simp: insertCall_def split: if_splits) metis
    with assms(2) have "insert_node fuel t (cs ! unat (hd sk)) (tl sk) v = Inl f" by simp
    with c(1-3) show ?thesis
      by (simp add: Some branchNode insertToBranch_def Let_def)
  next
    case (hashNode h)
    with Some assms show ?thesis
      by (auto simp: insertCall_def split: if_splits sum.splits)
  qed
qed

lemma insert_node_no_call:
  assumes "insertCall t n sk = None"
  shows "insert_node (Suc fuel) t n sk v = insert_node (Suc 0) t n sk v"
proof (cases n)
  case None
  then show ?thesis by simp
next
  case (Some m)
  show ?thesis
  proof (cases m)
    case (leafNode k lv)
    with Some assms show ?thesis
      by (auto simp: insertCall_def insertToLeaf_def Let_def split: if_splits sum.splits)
  next
    case (extNode k c)
    with Some assms show ?thesis
      by (auto simp: insertCall_def insertToExt_def Let_def split: if_splits sum.splits)
  next
    case (branchNode cs tg)
    with Some assms show ?thesis
      by (auto simp: insertCall_def insertToBranch_def Let_def split: if_splits sum.splits)
  next
    case (hashNode h)
    with Some assms show ?thesis
      by (auto simp: insertCall_def split: if_splits sum.splits)
  qed
qed

lemma insert_node_descent:
  "insertDescent k t n sk = Some (t', n', sk') \<Longrightarrow> insert_node fuel t' n' sk' v = Inl f
     \<Longrightarrow> insert_node (k + fuel) t n sk v = Inl f"
proof (induction k arbitrary: t n sk)
  case 0
  then show ?case by simp
next
  case (Suc k)
  from Suc.prems(1) obtain t1 n1 sk1 where c: "insertCall t n sk = Some (t1, n1, sk1)"
    "insertDescent k t1 n1 sk1 = Some (t', n', sk')"
    by (auto split: option.splits)
  from Suc.IH [OF c(2) Suc.prems(2)] have "insert_node (k + fuel) t1 n1 sk1 v = Inl f" .
  from insert_node_call [OF c(1) this] show ?case by simp
qed

lemma delete_node_call:
  assumes "deleteCall t n sk = Some (t', n', sk')" "delete_node K fuel t' n' sk' = Inl f"
  shows "delete_node K (Suc fuel) t n sk = Inl f"
proof (cases n)
  case None
  with assms show ?thesis by (simp add: deleteCall_def)
next
  case (Some m)
  show ?thesis
  proof (cases m)
    case (leafNode k lv)
    with Some assms show ?thesis by (simp add: deleteCall_def)
  next
    case (extNode k c)
    with Some assms show ?thesis
      by (auto simp: deleteCall_def deleteFromExt_def Let_def split: if_splits sum.splits)
  next
    case (branchNode cs tg)
    with Some assms(1) have c: "sk \<noteq> []" "unat (hd sk) < 16" "cs ! unat (hd sk) \<noteq> None"
      "t' = t" "n' = cs ! unat (hd sk)" "sk' = tl sk"
      by (auto simp: deleteCall_def split: if_splits)
    with assms(2) have "delete_node K fuel t (cs ! unat (hd sk)) (tl sk) = Inl f" by simp
    with c(1-3) show ?thesis
      by (simp add: Some branchNode deleteFromBranch_def Let_def)
  next
    case (hashNode h)
    with Some assms show ?thesis
      by (auto simp: deleteCall_def split: if_splits sum.splits)
  qed
qed

lemma delete_node_no_call:
  assumes "deleteCall t n sk = None"
  shows "delete_node K (Suc fuel) t n sk = delete_node K (Suc 0) t n sk"
proof (cases n)
  case None
  then show ?thesis by simp
next
  case (Some m)
  show ?thesis
  proof (cases m)
    case (leafNode k lv)
    with Some assms show ?thesis by simp
  next
    case (extNode k c)
    with Some assms show ?thesis
      by (auto simp: deleteCall_def deleteFromExt_def Let_def split: if_splits sum.splits)
  next
    case (branchNode cs tg)
    with Some assms show ?thesis
      by (auto simp: deleteCall_def deleteFromBranch_def Let_def split: if_splits sum.splits)
  next
    case (hashNode h)
    with Some assms show ?thesis
      by (auto simp: deleteCall_def split: if_splits sum.splits)
  qed
qed

lemma delete_node_descent:
  "deleteDescent k t n sk = Some (t', n', sk') \<Longrightarrow> delete_node K fuel t' n' sk' = Inl f
     \<Longrightarrow> delete_node K (k + fuel) t n sk = Inl f"
proof (induction k arbitrary: t n sk)
  case 0
  then show ?case by simp
next
  case (Suc k)
  from Suc.prems(1) obtain t1 n1 sk1 where c: "deleteCall t n sk = Some (t1, n1, sk1)"
    "deleteDescent k t1 n1 sk1 = Some (t', n', sk')"
    by (auto split: option.splits)
  from Suc.IH [OF c(2) Suc.prems(2)] have "delete_node K (k + fuel) t1 n1 sk1 = Inl f" .
  from delete_node_call [OF c(1) this] show ?case by simp
qed

lemma Insert_root_fault:
  "rootHash t \<noteq> EmptyHash K \<Longrightarrow> resolveHash t (rootHash t) = Inr (t1, rn, None)
     \<Longrightarrow> insert_node fuel t1 rn (bytesToNibbles key) v = Inl f
     \<Longrightarrow> Insert K fuel t key v = Inl f"
  by (simp add: Insert_def)

lemma Delete_root_fault:
  "rootHash t \<noteq> EmptyHash K \<Longrightarrow> resolveHash t (rootHash t) = Inr (t1, rn, None)
     \<Longrightarrow> delete_node K fuel t1 rn (bytesToNibbles key) = Inl f
     \<Longrightarrow> Delete K fuel t key = Inl f"
  by (simp add: Delete_def)

definition getCall :: "Trie \<Rightarrow> node option \<Rightarrow> bytes \<Rightarrow> (Trie \<times> node option \<times> bytes) option" where
  "getCall t startNode searchKey =
     (case startNode of
        Some (leafNode key val) \<Rightarrow> None
      | Some (extNode key child) \<Rightarrow>
          if length searchKey < length key then None
          else if take (length key) searchKey = key
          then Some (t, child, drop (length key) searchKey)
          else None
      | Some (branchNode children target) \<Rightarrow>
          if length searchKey = 0 then None
          else if unat (hd searchKey) < 16
          then Some (t, children ! unat (hd searchKey), tl searchKey)
          else None
      | Some (hashNode h) \<Rightarrow>
          (case resolveHash t (BytesToHash h) of
             Inl f \<Rightarrow> None
           | Inr (t1, resolved, err) \<Rightarrow>
               if err \<noteq> None then None else Some (t1, resolved, searchKey))
      | None \<Rightarrow> None)"

fun getDescent ::
  "nat \<Rightarrow> Trie \<Rightarrow> node option \<Rightarrow> bytes \<Rightarrow> (Trie \<times> node option \<times> bytes) option" where
  "getDescent 0 t startNode searchKey = Some (t, startNode, searchKey)"
| "getDescent (Suc k) t startNode searchKey =
     (case getCall t startNode searchKey of
        None \<Rightarrow> None
      | Some (t1, n, sk) \<Rightarrow> getDescent k t1 n sk)"

lemma tryGet_call:
  assumes "getCall t n sk = Some (t', n', sk')"
  shows "tryGet (Suc fuel) t n sk = tryGet fuel t' n' sk'"
proof (cases n)
  case None
  with assms show ?thesis by (simp add: getCall_def)
next
  case (Some m)
  with assms show ?thesis
    by (cases m) (auto simp: getCall_def split: if_splits sum.splits)
qed

lemma tryGet_descent:
  "getDescent k t n sk = Some (t', n', sk') \<Longrightarrow> tryGet (k + fuel) t n sk = tryGet fuel t' n' sk'"
proof (induction k arbitrary: t n sk)
  case 0
  then show ?case by simp
next
  case (Suc k)
  from Suc.prems(1) obtain t1 n1 sk1 where c: "getCall t n sk = Some (t1, n1, sk1)"
    "getDescent k t1 n1 sk1 = Some (t', n', sk')"
    by (auto split: option.splits)
  from Suc.IH [OF c(2)] tryGet_call [OF c(1), of "k + fuel"] show ?case by simp
qed

lemma Get_root:
  "rootHash t \<noteq> EmptyHash K \<Longrightarrow> resolveHash t (rootHash t) = Inr (t1, rn, None)
     \<Longrightarrow> Get K fuel t key = tryGet fuel t1 rn (bytesToNibbles key)"
  by (simp add: Get_def)

lemma Get_descent:
  "rootHash t \<noteq> EmptyHash K \<Longrightarrow> resolveHash t (rootHash t) = Inr (t1, rn, None)
     \<Longrightarrow> getDescent k t1 rn (bytesToNibbles key) = Some (t2, n2, sk2)
     \<Longrightarrow> Get K (k + fuel) t key = tryGet fuel t2 n2 sk2"
  by (simp add: Get_root tryGet_descent)




text \<open>
  Two tries to run the operations on. The log of \<open>trieOf root\<close> holds the encoding of
  \<open>root\<close> as inserted, under the root hash, and marks \<open>danglingHash\<close> as deleted.
  \<open>danglingBranch\<close> refers to that hash under slot 1; \<open>danglingSibling\<close> has a leaf under
  slot 1 and refers to the hash under slot 3.
\<close>

definition danglingHash :: bytes where
  "danglingHash = replicate 32 5"

definition trieOf :: "node \<Rightarrow> Trie" where
  "trieOf root =
     (case Encode K0 root of
        Inl f \<Rightarrow> NewTrie (EmptyHash K0) []
      | Inr e \<Rightarrow>
          \<lparr>db = [], rootHash = Keccak256Hash K0 e,
           log = \<lparr>cached = [], inserted = [(Keccak256Hash K0 e, e)],
                  deleted = [(danglingHash, [])]\<rparr>\<rparr>)"

definition danglingBranch :: node where
  "danglingBranch = branchNode (noChildren[1 := Some (hashNode danglingHash)]) []"

definition danglingSibling :: node where
  "danglingSibling =
     branchNode (noChildren[1 := Some (leafNode [2] [9]), 3 := Some (hashNode danglingHash)]) []"

lemma tryFixExt_error:
  "getNodeFrom K ups (BytesToHash h) = Inr None \<Longrightarrow>
   resolveHash t (BytesToHash h) = Inr (t1, n, Some e) \<Longrightarrow>
   tryFixExt K t ek (Some (hashNode h)) ups
     = Inl (PanicMsg ''tryFixExt: can't resolve child, maybe because of can't get node from updates'')"
  by (simp add: tryFixExt_def)

lemma tryFixExt_fault:
  "getNodeFrom K ups (BytesToHash h) = Inr None \<Longrightarrow>
   resolveHash t (BytesToHash h) = Inl f \<Longrightarrow>
   tryFixExt K t ek (Some (hashNode h)) ups = Inl f"
  by (simp add: tryFixExt_def)

lemma tryFix_ext: "tryFix K t (extNode ek ch) ups = tryFixExt K t ek ch ups"
  by (simp add: tryFix_def)

lemma tryFix_branch:
  "childrenIndex cs = [i] \<Longrightarrow> \<not> hasTarget tg \<Longrightarrow>
   tryFix K t (branchNode cs tg) ups = tryFixExt K t [of_nat i] (cs ! i) ups"
  by (simp add: tryFix_def tryFixBranch_def Let_def)

lemma delete_node_fix_ext:
  assumes "deleteCall t (Some (extNode ek ch)) sk = Some (t', n', sk')"
    "delete_node K fuel t' n' sk' = Inr (t1, res)" "hasChanged res"
    "tryFix K t1 (extNode ek (newNode res)) (insertedNodes res) = Inl f"
  shows "delete_node K (Suc fuel) t (Some (extNode ek ch)) sk = Inl f"
  using assms
  by (auto simp: deleteCall_def deleteFromExt_def Let_def split: if_splits)

lemma delete_node_fix_branch:
  assumes "deleteCall t (Some (branchNode cs tg)) sk = Some (t', n', sk')"
    "delete_node K fuel t' n' sk' = Inr (t1, res)" "hasChanged res"
    "tryFix K t1 (branchNode (cs[unat (hd sk) := newNode res]) tg) (insertedNodes res) = Inl f"
  shows "delete_node K (Suc fuel) t (Some (branchNode cs tg)) sk = Inl f"
proof -
  from assms(1) have c: "sk \<noteq> []" "unat (hd sk) < 16" "cs ! unat (hd sk) \<noteq> None"
    "t' = t" "n' = cs ! unat (hd sk)" "sk' = tl sk"
    by (auto simp: deleteCall_def split: if_splits)
  with assms(2) have "delete_node K fuel t (cs ! unat (hd sk)) (tl sk) = Inr (t1, res)" by simp
  with c(1-3) assms(3,4) show ?thesis
    by (simp add: deleteFromBranch_def Let_def updateChild_def)
qed

lemma delete_node_fix_target:
  "hasTarget tg \<Longrightarrow> tryFix K t (branchWithChildren cs) [] = Inl f \<Longrightarrow>
   delete_node K (Suc fuel) t (Some (branchNode cs tg)) [] = Inl f"
  by (simp add: deleteFromBranch_def Let_def)

text \<open>
  C7, amended: \<^verbatim>\<open>Get\<close> returns absent when \<^verbatim>\<open>resolveHash\<close> returns an error, which it does
  for a hash marked deleted in the log and for bytes of \<^verbatim>\<open>log.inserted\<close> or \<^verbatim>\<open>log.cached\<close>
  that fail to decode; \<^verbatim>\<open>Insert\<close> and \<^verbatim>\<open>Delete\<close> panic there and return no trie. A store
  miss, an empty value in the store and fetched bytes that fail to decode make
  \<^verbatim>\<open>resolveHash\<close> panic, and that panic aborts \<^verbatim>\<open>Get\<close> as it aborts \<^verbatim>\<open>Insert\<close> and
  \<^verbatim>\<open>Delete\<close>. The same holds at the root, at a hash node, and at a hash node that the
  descent from the root reaches after any number of calls: whatever panic a call below the
  root ends in is the result of \<^verbatim>\<open>Insert\<close> and of \<^verbatim>\<open>Delete\<close>, which return no trie
  (\<open>insertCall\<close> and \<open>deleteCall\<close> leave no call out: where they give \<open>None\<close> the result does
  not depend on the recursion). \<^verbatim>\<open>tryFixExt\<close>, which \<^verbatim>\<open>tryFix\<close> runs on an extension and on
  a branch left with one child and no target, panics when the hash node under it is not among
  the updates and \<^verbatim>\<open>resolveHash\<close> returns an error or panics; a panic of \<^verbatim>\<open>tryFix\<close> is the
  result of the \<^verbatim>\<open>delete\<close> that called it.
\<close>

theorem resolution_failures:
  "(rootHash t \<noteq> EmptyHash K \<and> resolveHash t (rootHash t) = Inr (t1, n, Some e) \<longrightarrow>
      Get K fuel t key = Inr (t1, []) \<and>
      Insert K fuel t key v = Inl (PanicMsg ''Insert: can't resolve rootHash'') \<and>
      Delete K fuel t key = Inl (PanicMsg ''Delete: can't resolve rootHash''))
   \<and> (rootHash t \<noteq> EmptyHash K \<and> resolveHash t (rootHash t) = Inl f \<longrightarrow>
      Get K fuel t key = Inl f \<and> Insert K fuel t key v = Inl f \<and> Delete K fuel t key = Inl f)
   \<and> (resolveHash t (BytesToHash h) = Inr (t1, n, Some e) \<longrightarrow>
      tryGet (Suc fuel) t (Some (hashNode h)) sk = Inr (t1, []) \<and>
      insert_node (Suc fuel) t (Some (hashNode h)) sk v
        = Inl (PanicMsg ''insert: can't resolve hashNode'') \<and>
      delete_node K (Suc fuel) t (Some (hashNode h)) sk
        = Inl (PanicMsg ''delete: can't resolve hashNode''))
   \<and> (resolveHash t (BytesToHash h) = Inl f \<longrightarrow>
      tryGet (Suc fuel) t (Some (hashNode h)) sk = Inl f \<and>
      insert_node (Suc fuel) t (Some (hashNode h)) sk v = Inl f \<and>
      delete_node K (Suc fuel) t (Some (hashNode h)) sk = Inl f)
   \<and> (map_of (deleted (log t)) hh \<noteq> None \<longrightarrow>
      resolveHash t hh = Inr (t, None, Some ErrNodeDeleted))
   \<and> (map_of (deleted (log t)) hh = None \<and> map_of (inserted (log t)) hh = Some bs \<and>
      decodeNode bs = Inr (n, Some e) \<longrightarrow> resolveHash t hh = Inr (t, n, Some e))
   \<and> (map_of (deleted (log t)) hh = None \<and> map_of (inserted (log t)) hh = None \<and>
      map_of (cached (log t)) hh = Some bs \<and>
      decodeNode bs = Inr (n, Some e) \<longrightarrow> resolveHash t hh = Inr (t, n, Some e))
   \<and> (map_of (deleted (log t)) hh = None \<and> map_of (inserted (log t)) hh = None \<and>
      map_of (cached (log t)) hh = None \<and> (map_of (db t) hh = None \<or> map_of (db t) hh = Some []) \<longrightarrow>
      resolveHash t hh = Inl (PanicMsg ''fetchFromDB: get from db failed''))
   \<and> (map_of (deleted (log t)) hh = None \<and> map_of (inserted (log t)) hh = None \<and>
      map_of (cached (log t)) hh = None \<and> map_of (db t) hh = Some bs \<and> bs \<noteq> [] \<and>
      decodeNode bs = Inr (n, Some e) \<longrightarrow>
      resolveHash t hh = Inl (PanicMsg ''fetchFromDB: decodeNode failed''))
   \<and> (rootHash t \<noteq> EmptyHash K \<and> resolveHash t (rootHash t) = Inr (t1, rootNode, None) \<and>
      getDescent k t1 rootNode (bytesToNibbles key) = Some (t2, Some (hashNode h), sk2) \<and>
      resolveHash t2 (BytesToHash h) = Inr (t3, n, Some e) \<longrightarrow>
      Get K (k + Suc fuel) t key = Inr (t3, []))
   \<and> (rootHash t \<noteq> EmptyHash K \<and> resolveHash t (rootHash t) = Inr (t1, rootNode, None) \<and>
      getDescent k t1 rootNode (bytesToNibbles key) = Some (t2, Some (hashNode h), sk2) \<and>
      resolveHash t2 (BytesToHash h) = Inl f \<longrightarrow>
      Get K (k + Suc fuel) t key = Inl f)
   \<and> (rootHash t \<noteq> EmptyHash K \<and> resolveHash t (rootHash t) = Inr (t1, rootNode, None) \<and>
      insertDescent k t1 rootNode (bytesToNibbles key) = Some (t2, n2, sk2) \<and>
      insert_node fuel t2 n2 sk2 v = Inl f \<longrightarrow>
      Insert K (k + fuel) t key v = Inl f)
   \<and> (rootHash t \<noteq> EmptyHash K \<and> resolveHash t (rootHash t) = Inr (t1, rootNode, None) \<and>
      deleteDescent k t1 rootNode (bytesToNibbles key) = Some (t2, n2, sk2) \<and>
      delete_node K fuel t2 n2 sk2 = Inl f \<longrightarrow>
      Delete K (k + fuel) t key = Inl f)
   \<and> (rootHash t \<noteq> EmptyHash K \<and> resolveHash t (rootHash t) = Inr (t1, rootNode, None) \<and>
      insertDescent k t1 rootNode (bytesToNibbles key) = Some (t2, Some (hashNode h), sk2) \<and>
      resolveHash t2 (BytesToHash h) = Inr (t3, n, Some e) \<longrightarrow>
      Insert K (k + Suc fuel) t key v = Inl (PanicMsg ''insert: can't resolve hashNode''))
   \<and> (rootHash t \<noteq> EmptyHash K \<and> resolveHash t (rootHash t) = Inr (t1, rootNode, None) \<and>
      insertDescent k t1 rootNode (bytesToNibbles key) = Some (t2, Some (hashNode h), sk2) \<and>
      resolveHash t2 (BytesToHash h) = Inl f \<longrightarrow>
      Insert K (k + Suc fuel) t key v = Inl f)
   \<and> (rootHash t \<noteq> EmptyHash K \<and> resolveHash t (rootHash t) = Inr (t1, rootNode, None) \<and>
      deleteDescent k t1 rootNode (bytesToNibbles key) = Some (t2, Some (hashNode h), sk2) \<and>
      resolveHash t2 (BytesToHash h) = Inr (t3, n, Some e) \<longrightarrow>
      Delete K (k + Suc fuel) t key = Inl (PanicMsg ''delete: can't resolve hashNode''))
   \<and> (rootHash t \<noteq> EmptyHash K \<and> resolveHash t (rootHash t) = Inr (t1, rootNode, None) \<and>
      deleteDescent k t1 rootNode (bytesToNibbles key) = Some (t2, Some (hashNode h), sk2) \<and>
      resolveHash t2 (BytesToHash h) = Inl f \<longrightarrow>
      Delete K (k + Suc fuel) t key = Inl f)
   \<and> (insertCall t n sk = None \<longrightarrow>
      insert_node (Suc fuel) t n sk v = insert_node (Suc 0) t n sk v)
   \<and> (deleteCall t n sk = None \<longrightarrow>
      delete_node K (Suc fuel) t n sk = delete_node K (Suc 0) t n sk)
   \<and> (getNodeFrom K updates (BytesToHash h) = Inr None \<and>
      resolveHash t (BytesToHash h) = Inr (t1, n, Some e) \<longrightarrow>
      tryFixExt K t extKey (Some (hashNode h)) updates
        = Inl (PanicMsg ''tryFixExt: can't resolve child, maybe because of can't get node from updates''))
   \<and> (getNodeFrom K updates (BytesToHash h) = Inr None \<and>
      resolveHash t (BytesToHash h) = Inl f \<longrightarrow>
      tryFixExt K t extKey (Some (hashNode h)) updates = Inl f)
   \<and> tryFix K t (extNode extKey extChild) updates = tryFixExt K t extKey extChild updates
   \<and> (childrenIndex children = [i] \<and> \<not> hasTarget target \<longrightarrow>
      tryFix K t (branchNode children target) updates
        = tryFixExt K t [of_nat i] (children ! i) updates)
   \<and> (deleteCall t (Some (extNode extKey extChild)) sk = Some (t2, n2, sk2) \<and>
      delete_node K fuel t2 n2 sk2 = Inr (t3, res) \<and> hasChanged res \<and>
      tryFix K t3 (extNode extKey (newNode res)) (insertedNodes res) = Inl f \<longrightarrow>
      delete_node K (Suc fuel) t (Some (extNode extKey extChild)) sk = Inl f)
   \<and> (deleteCall t (Some (branchNode children target)) sk = Some (t2, n2, sk2) \<and>
      delete_node K fuel t2 n2 sk2 = Inr (t3, res) \<and> hasChanged res \<and>
      tryFix K t3 (branchNode (children[unat (hd sk) := newNode res]) target) (insertedNodes res)
        = Inl f \<longrightarrow>
      delete_node K (Suc fuel) t (Some (branchNode children target)) sk = Inl f)
   \<and> (hasTarget target \<and> tryFix K t (branchWithChildren children) [] = Inl f \<longrightarrow>
      delete_node K (Suc fuel) t (Some (branchNode children target)) [] = Inl f)"
  apply (intro conjI)
  subgoal by (auto simp: Get_def Insert_def Delete_def)
  subgoal by (auto simp: Get_def Insert_def Delete_def)
  subgoal by auto
  subgoal by auto
  subgoal by (auto simp: resolveHash_def)
  subgoal by (auto simp: resolveHash_def)
  subgoal by (auto simp: resolveHash_def)
  subgoal by (auto simp: resolveHash_def fetchFromDB_def)
  subgoal by (auto simp: resolveHash_def fetchFromDB_def)
  subgoal
    apply (intro impI)
    apply (elim conjE)
    apply (subst Get_descent)
       apply assumption+
    apply simp
    done
  subgoal
    apply (intro impI)
    apply (elim conjE)
    apply (subst Get_descent)
       apply assumption+
    apply simp
    done
  subgoal by (blast intro: Insert_root_fault insert_node_descent)
  subgoal by (blast intro: Delete_root_fault delete_node_descent)
  subgoal
    by (intro impI Insert_root_fault insert_node_descent [where fuel = "Suc fuel"]; (elim conjE)?)
       (assumption | simp)+
  subgoal
    by (intro impI Insert_root_fault insert_node_descent [where fuel = "Suc fuel"]; (elim conjE)?)
       (assumption | simp)+
  subgoal
    by (intro impI Delete_root_fault delete_node_descent [where fuel = "Suc fuel"]; (elim conjE)?)
       (assumption | simp)+
  subgoal
    by (intro impI Delete_root_fault delete_node_descent [where fuel = "Suc fuel"]; (elim conjE)?)
       (assumption | simp)+
  subgoal by (blast intro: insert_node_no_call)
  subgoal by (blast intro: delete_node_no_call)
  subgoal by (blast intro: tryFixExt_error)
  subgoal by (blast intro: tryFixExt_fault)
  subgoal by (rule tryFix_ext)
  subgoal by (blast intro: tryFix_branch)
  subgoal by (blast intro: delete_node_fix_ext)
  subgoal by (blast intro: delete_node_fix_branch)
  subgoal by (blast intro: delete_node_fix_target)
  done

theorem resolution_failures_witness:
  "Get K0 1 \<lparr>db = [], rootHash = BytesToHash [1], log = log_delete newUpdateLog (BytesToHash [1])\<rparr> [0x12]
     = Inr (\<lparr>db = [], rootHash = BytesToHash [1], log = log_delete newUpdateLog (BytesToHash [1])\<rparr>, [])
   \<and> Insert K0 1 \<lparr>db = [], rootHash = BytesToHash [1], log = log_delete newUpdateLog (BytesToHash [1])\<rparr> [0x12] [7]
     = Inl (PanicMsg ''Insert: can't resolve rootHash'')
   \<and> Delete K0 1 \<lparr>db = [], rootHash = BytesToHash [1], log = log_delete newUpdateLog (BytesToHash [1])\<rparr> [0x12]
     = Inl (PanicMsg ''Delete: can't resolve rootHash'')
   \<and> resolveHash (NewTrie (BytesToHash [1]) []) (BytesToHash [1])
     = Inl (PanicMsg ''fetchFromDB: get from db failed'')
   \<and> Insert K0 1 (NewTrie (BytesToHash [1]) []) [0x12] [7]
     = Inl (PanicMsg ''fetchFromDB: get from db failed'')
   \<and> Get K0 2 (trieOf danglingBranch) [0x12] = Inr (trieOf danglingBranch, [])
   \<and> Insert K0 2 (trieOf danglingBranch) [0x12] [7]
     = Inl (PanicMsg ''insert: can't resolve hashNode'')
   \<and> Delete K0 2 (trieOf danglingBranch) [0x12]
     = Inl (PanicMsg ''delete: can't resolve hashNode'')
   \<and> Delete K0 2 (trieOf danglingSibling) [0x12]
     = Inl (PanicMsg ''tryFixExt: can't resolve child, maybe because of can't get node from updates'')"
proof -
  let ?R = "BytesToHash [1]"
  let ?t1 = "\<lparr>db = [], rootHash = ?R, log = log_delete newUpdateLog ?R\<rparr>"
  let ?t2 = "NewTrie ?R []"
  let ?tb = "trieOf danglingBranch"
  let ?ts = "trieOf danglingSibling"
  let ?fix = "PanicMsg ''tryFixExt: can't resolve child, maybe because of can't get node from updates''"
  have ne: "?R \<noteq> EmptyHash K0" by code_simp
  have r1: "resolveHash ?t1 (rootHash ?t1) = Inr (?t1, None, Some ErrNodeDeleted)"
    by (simp add: resolveHash_def log_delete_def newUpdateLog_def)
  have m2: "map_of (deleted (log ?t2)) ?R = None \<and> map_of (inserted (log ?t2)) ?R = None \<and>
      map_of (cached (log ?t2)) ?R = None \<and> (map_of (db ?t2) ?R = None \<or> map_of (db ?t2) ?R = Some [])"
    by (simp add: NewTrie_def newUpdateLog_def)
  have a: "Get K0 1 ?t1 [0x12] = Inr (?t1, []) \<and>
      Insert K0 1 ?t1 [0x12] [7] = Inl (PanicMsg ''Insert: can't resolve rootHash'') \<and>
      Delete K0 1 ?t1 [0x12] = Inl (PanicMsg ''Delete: can't resolve rootHash'')"
    using resolution_failures [where t = ?t1 and K = K0 and ?t1.0 = ?t1 and n = None
        and e = ErrNodeDeleted and fuel = 1 and key = "[0x12]" and v = "[7]"] ne r1
    by simp
  have b: "resolveHash ?t2 ?R = Inl (PanicMsg ''fetchFromDB: get from db failed'')"
    using resolution_failures [where t = ?t2 and hh = ?R] m2 by simp
  have c: "Insert K0 1 ?t2 [0x12] [7] = Inl (PanicMsg ''fetchFromDB: get from db failed'')"
    using resolution_failures [where t = ?t2 and K = K0
        and f = "PanicMsg ''fetchFromDB: get from db failed''" and fuel = 1
        and key = "[0x12]" and v = "[7]"] ne b
    by (simp add: NewTrie_def)
  have neb: "rootHash ?tb \<noteq> EmptyHash K0" by code_simp
  have rb: "resolveHash ?tb (rootHash ?tb) = Inr (?tb, Some danglingBranch, None)" by code_simp
  have gb: "getDescent 1 ?tb (Some danglingBranch) (bytesToNibbles [0x12])
              = Some (?tb, Some (hashNode danglingHash), [2])" by code_simp
  have ib: "insertDescent 1 ?tb (Some danglingBranch) (bytesToNibbles [0x12])
              = Some (?tb, Some (hashNode danglingHash), [2])" by code_simp
  have db: "deleteDescent 1 ?tb (Some danglingBranch) (bytesToNibbles [0x12])
              = Some (?tb, Some (hashNode danglingHash), [2])" by code_simp
  have hb: "resolveHash ?tb (BytesToHash danglingHash) = Inr (?tb, None, Some ErrNodeDeleted)"
    by code_simp
  note inst = resolution_failures [where t = ?tb and K = K0 and ?t1.0 = ?tb
      and rootNode = "Some danglingBranch" and k = 1 and key = "[0x12]" and ?t2.0 = ?tb
      and h = danglingHash and ?sk2.0 = "[2]" and ?t3.0 = ?tb and n = None
      and e = ErrNodeDeleted and fuel = 0 and v = "[7]"]
  have d: "Get K0 2 ?tb [0x12] = Inr (?tb, [])"
    using inst neb rb gb hb by (simp add: numeral_2_eq_2)
  have e: "Insert K0 2 ?tb [0x12] [7] = Inl (PanicMsg ''insert: can't resolve hashNode'')"
    using inst neb rb ib hb by (simp add: numeral_2_eq_2)
  have f: "Delete K0 2 ?tb [0x12] = Inl (PanicMsg ''delete: can't resolve hashNode'')"
    using inst neb rb db hb by (simp add: numeral_2_eq_2)
  let ?cs = "noChildren[1 := Some (leafNode [2] [9]), 3 := Some (hashNode danglingHash)]"
  let ?res = "deleteFromLeaf [2] [9] [2]"
  have nes: "rootHash ?ts \<noteq> EmptyHash K0" by code_simp
  have rs: "resolveHash ?ts (rootHash ?ts) = Inr (?ts, Some (branchNode ?cs []), None)"
    by code_simp
  have cs: "deleteCall ?ts (Some (branchNode ?cs [])) (bytesToNibbles [0x12])
              = Some (?ts, Some (leafNode [2] [9]), [2])" by code_simp
  have ls: "delete_node K0 1 ?ts (Some (leafNode [2] [9])) [2] = Inr (?ts, ?res)" by code_simp
  have ch: "hasChanged ?res" by code_simp
  have ix: "childrenIndex (?cs[unat (hd (bytesToNibbles [0x12])) := newNode ?res]) = [3]"
    by code_simp
  have c3: "(?cs[unat (hd (bytesToNibbles [0x12])) := newNode ?res]) ! 3
              = Some (hashNode danglingHash)" by code_simp
  have gn: "getNodeFrom K0 (insertedNodes ?res) (BytesToHash danglingHash) = Inr None"
    by code_simp
  have hs: "resolveHash ?ts (BytesToHash danglingHash) = Inr (?ts, None, Some ErrNodeDeleted)"
    by code_simp
  have fx: "tryFixExt K0 ?ts [of_nat 3] (Some (hashNode danglingHash)) (insertedNodes ?res) = Inl ?fix"
    using resolution_failures [where t = ?ts and K = K0 and updates = "insertedNodes ?res"
        and h = danglingHash and ?t1.0 = ?ts and n = None and e = ErrNodeDeleted
        and extKey = "[of_nat 3]"] gn hs
    by simp
  have tf: "tryFix K0 ?ts (branchNode (?cs[unat (hd (bytesToNibbles [0x12])) := newNode ?res]) [])
              (insertedNodes ?res) = Inl ?fix"
    using resolution_failures [where t = ?ts and K = K0 and updates = "insertedNodes ?res"
        and children = "?cs[unat (hd (bytesToNibbles [0x12])) := newNode ?res]"
        and target = "[]" and i = 3] ix c3 fx
    by (simp add: hasTarget_def)
  have dn: "delete_node K0 2 ?ts (Some (branchNode ?cs [])) (bytesToNibbles [0x12]) = Inl ?fix"
    using resolution_failures [where t = ?ts and K = K0 and children = ?cs and target = "[]"
        and sk = "bytesToNibbles [0x12]" and ?t2.0 = ?ts and ?n2.0 = "Some (leafNode [2] [9])"
        and ?sk2.0 = "[2]" and fuel = 1 and ?t3.0 = ?ts and res = ?res and f = ?fix] cs ls ch tf
    by (simp add: numeral_2_eq_2)
  have g: "Delete K0 2 ?ts [0x12] = Inl ?fix"
    using resolution_failures [where t = ?ts and K = K0 and ?t1.0 = ?ts
        and rootNode = "Some (branchNode ?cs [])" and k = 0 and key = "[0x12]"
        and ?t2.0 = ?ts and ?n2.0 = "Some (branchNode ?cs [])" and ?sk2.0 = "bytesToNibbles [0x12]"
        and fuel = 2 and f = ?fix] nes rs dn
    by (simp add: numeral_2_eq_2)
  from a b c d e f g show ?thesis by simp
qed


section \<open>What Insert does to its receiver\<close>

text \<open>
  \<open>fromStore t h bs\<close>: the trie \<open>t\<close> would fetch \<open>bs\<close> for \<open>h\<close> from the store and cache
  it. \<open>cacheExtends t t1\<close>: \<open>t1\<close> is \<open>t\<close> with such entries added at the end of its cache
  and nothing else changed.
\<close>

definition fromStore :: "Trie \<Rightarrow> bytes \<Rightarrow> bytes \<Rightarrow> bool" where
  "fromStore t h bs =
     (map_of (db t) h = Some bs \<and> bs \<noteq> [] \<and>
      (case decodeNode bs of Inr (n, None) \<Rightarrow> True | _ \<Rightarrow> False) \<and>
      map_of (deleted (log t)) h = None \<and> map_of (inserted (log t)) h = None \<and>
      map_of (cached (log t)) h = None)"

definition cacheExtends :: "Trie \<Rightarrow> Trie \<Rightarrow> bool" where
  "cacheExtends t t1 =
     (db t1 = db t \<and> rootHash t1 = rootHash t \<and>
      inserted (log t1) = inserted (log t) \<and> deleted (log t1) = deleted (log t) \<and>
      take (length (cached (log t))) (cached (log t1)) = cached (log t) \<and>
      (\<forall>(h, bs) \<in> set (drop (length (cached (log t))) (cached (log t1))). fromStore t h bs))"

lemma cacheExtendsI:
  "db t1 = db t \<Longrightarrow> rootHash t1 = rootHash t \<Longrightarrow> inserted (log t1) = inserted (log t)
   \<Longrightarrow> deleted (log t1) = deleted (log t) \<Longrightarrow> cached (log t1) = cached (log t) @ extra
   \<Longrightarrow> (\<And>h bs. (h, bs) \<in> set extra \<Longrightarrow> fromStore t h bs) \<Longrightarrow> cacheExtends t t1"
  by (auto simp: cacheExtends_def)

lemma cacheExtendsD:
  assumes "cacheExtends t t1"
  shows "\<exists>extra. db t1 = db t \<and> rootHash t1 = rootHash t \<and>
    inserted (log t1) = inserted (log t) \<and> deleted (log t1) = deleted (log t) \<and>
    cached (log t1) = cached (log t) @ extra \<and>
    (\<forall>h bs. (h, bs) \<in> set extra \<longrightarrow> fromStore t h bs)"
proof -
  let ?extra = "drop (length (cached (log t))) (cached (log t1))"
  have "take (length (cached (log t))) (cached (log t1)) = cached (log t)"
    using assms by (simp add: cacheExtends_def)
  then have "cached (log t1) = cached (log t) @ ?extra"
    using append_take_drop_id [of "length (cached (log t))" "cached (log t1)"] by simp
  with assms show ?thesis
    by (intro exI [where x = ?extra]) (auto simp: cacheExtends_def)
qed

lemma cacheExtends_refl: "cacheExtends t t"
  by (simp add: cacheExtends_def)

lemma cacheExtends_trans:
  assumes "cacheExtends a b" "cacheExtends b c"
  shows "cacheExtends a c"
proof -
  from assms(1) obtain e1 where ab: "db b = db a" "rootHash b = rootHash a"
    "inserted (log b) = inserted (log a)" "deleted (log b) = deleted (log a)"
    "cached (log b) = cached (log a) @ e1"
    and f1: "\<And>h bs. (h, bs) \<in> set e1 \<Longrightarrow> fromStore a h bs"
    using cacheExtendsD by blast
  from assms(2) obtain e2 where bc: "db c = db b" "rootHash c = rootHash b"
    "inserted (log c) = inserted (log b)" "deleted (log c) = deleted (log b)"
    "cached (log c) = cached (log b) @ e2"
    and f2: "\<And>h bs. (h, bs) \<in> set e2 \<Longrightarrow> fromStore b h bs"
    using cacheExtendsD by blast
  have "fromStore a h bs" if "(h, bs) \<in> set e2" for h bs
    using f2 [OF that] ab by (auto simp: fromStore_def map_add_def split: option.splits)
  with f1 have "\<And>h bs. (h, bs) \<in> set (e1 @ e2) \<Longrightarrow> fromStore a h bs"
    by auto
  then show ?thesis
    using ab bc by (intro cacheExtendsI [where extra = "e1 @ e2"]) auto
qed

lemma update_absent: "map_of al k = None \<Longrightarrow> AList.update k v al = al @ [(k, v)]"
  by (induction al) (auto split: if_splits)

lemma resolveHash_grows:
  assumes "resolveHash t h = Inr (t1, n, e)"
  shows "cacheExtends t t1"
proof (cases "map_of (deleted (log t)) h = None \<and> map_of (inserted (log t)) h = None
              \<and> map_of (cached (log t)) h = None")
  case False
  with assms have "t1 = t"
    by (auto simp: resolveHash_def split: option.splits sum.splits if_splits)
  then show ?thesis by (simp add: cacheExtends_refl)
next
  case True
  with assms obtain bs where bs: "map_of (db t) h = Some bs" "bs \<noteq> []"
    "decodeNode bs = Inr (n, None)" and t1: "t1 = t\<lparr>log := log_cache (log t) h bs\<rparr>"
    by (auto simp: resolveHash_def fetchFromDB_def split: option.splits sum.splits if_splits)
  have "cached (log t1) = cached (log t) @ [(h, bs)]"
    using True t1 by (simp add: log_cache_def update_absent)
  moreover have "fromStore t h bs"
    using True bs by (simp add: fromStore_def)
  ultimately show ?thesis
    using t1 by (intro cacheExtendsI [where extra = "[(h, bs)]"]) (auto simp: log_cache_def)
qed

lemma insertToLeaf_grows:
  assumes "\<And>t n sk v t1 r. ins t n sk v = Inr (t1, r) \<Longrightarrow> cacheExtends t t1"
    and "insertToLeaf ins t lk lv sk v = Inr (t1, r)"
  shows "cacheExtends t t1"
  using assms(2)
  by (auto simp: insertToLeaf_def Let_def cacheExtends_refl split: if_splits sum.splits
      dest: assms(1))

lemma insertToExt_grows:
  assumes "\<And>t n sk v t1 r. ins t n sk v = Inr (t1, r) \<Longrightarrow> cacheExtends t t1"
    and "insertToExt ins t ek ec sk v = Inr (t1, r)"
  shows "cacheExtends t t1"
  using assms(2)
  by (auto simp: insertToExt_def Let_def cacheExtends_refl split: if_splits sum.splits
      dest: assms(1))

lemma insertToBranch_grows:
  assumes "\<And>t n sk v t1 r. ins t n sk v = Inr (t1, r) \<Longrightarrow> cacheExtends t t1"
    and "insertToBranch ins t cs tg sk v = Inr (t1, r)"
  shows "cacheExtends t t1"
  using assms(2)
  by (auto simp: insertToBranch_def Let_def cacheExtends_refl split: if_splits sum.splits
      dest: assms(1))

lemma insert_node_grows:
  "insert_node fuel t n sk v = Inr (t1, r) \<Longrightarrow> cacheExtends t t1"
proof (induction fuel arbitrary: t n sk v t1 r)
  case 0
  then show ?case by simp
next
  case (Suc fuel)
  show ?case
  proof (cases n)
    case None
    with Suc.prems show ?thesis by simp
  next
    case (Some nd)
    show ?thesis
    proof (cases nd)
      case (leafNode k lv)
      with Some Suc.prems show ?thesis
        by (auto intro: insertToLeaf_grows [where ins = "insert_node fuel"] Suc.IH)
    next
      case (extNode k c)
      with Some Suc.prems show ?thesis
        by (auto intro: insertToExt_grows [where ins = "insert_node fuel"] Suc.IH)
    next
      case (branchNode cs tg)
      with Some Suc.prems show ?thesis
        by (auto intro: insertToBranch_grows [where ins = "insert_node fuel"] Suc.IH)
    next
      case (hashNode h)
      with Some Suc.prems obtain t2 rn where
        r: "resolveHash t (BytesToHash h) = Inr (t2, rn, None)"
        and i: "insert_node fuel t2 rn sk v = Inr (t1, r)"
        by (auto split: sum.splits if_splits)
      from cacheExtends_trans [OF resolveHash_grows [OF r] Suc.IH [OF i]]
      show ?thesis .
    qed
  qed
qed

lemma Insert_grows:
  assumes "Insert K fuel t key v = Inr (t1, t')"
  shows "cacheExtends t t1"
proof (cases "rootHash t = EmptyHash K")
  case True
  with assms have "t1 = t"
    by (auto simp: Insert_def Let_def split: sum.splits option.splits)
  then show ?thesis by (simp add: cacheExtends_refl)
next
  case False
  with assms obtain t2 rn r where
    r: "resolveHash t (rootHash t) = Inr (t2, rn, None)"
    and i: "insert_node fuel t2 rn (bytesToNibbles key) v = Inr (t1, r)"
    by (auto simp: Insert_def Let_def split: sum.splits option.splits if_splits)
  from cacheExtends_trans [OF resolveHash_grows [OF r] insert_node_grows [OF i]]
  show ?thesis .
qed

text \<open>Two tries that read the same: the cache of the second may hold more of the store.\<close>

definition sameView :: "Trie \<Rightarrow> Trie \<Rightarrow> bool" where
  "sameView t t1 =
     (db t1 = db t \<and> rootHash t1 = rootHash t \<and>
      inserted (log t1) = inserted (log t) \<and> deleted (log t1) = deleted (log t) \<and>
      (\<forall>h. map_of (cached (log t1)) h = map_of (cached (log t)) h \<or>
           (\<exists>bs. map_of (cached (log t1)) h = Some bs \<and> fromStore t h bs)))"

lemma cacheExtends_sameView:
  assumes "cacheExtends t t1"
  shows "sameView t t1"
proof -
  from assms obtain extra where e: "db t1 = db t" "rootHash t1 = rootHash t"
    "inserted (log t1) = inserted (log t)" "deleted (log t1) = deleted (log t)"
    "cached (log t1) = cached (log t) @ extra"
    and f: "\<And>h bs. (h, bs) \<in> set extra \<Longrightarrow> fromStore t h bs"
    using cacheExtendsD by blast
  have "map_of (cached (log t1)) h = map_of (cached (log t)) h \<or>
           (\<exists>bs. map_of (cached (log t1)) h = Some bs \<and> fromStore t h bs)" for h
  proof (cases "map_of (cached (log t)) h")
    case None
    show ?thesis
    proof (cases "map_of extra h")
      case None
      with \<open>map_of (cached (log t)) h = None\<close> e(5) show ?thesis
        by (simp add: map_add_def)
    next
      case (Some bs)
      then have "(h, bs) \<in> set extra" by (rule map_of_SomeD)
      from f [OF this] Some \<open>map_of (cached (log t)) h = None\<close> e(5) show ?thesis
        by (simp add: map_add_def)
    qed
  next
    case (Some a)
    with e(5) show ?thesis by (simp add: map_add_def)
  qed
  with e show ?thesis by (simp add: sameView_def)
qed

text \<open>Two results that agree up to the tries they carry, which are related by \<open>R\<close>.\<close>

definition sameOutcome ::
  "(Trie \<Rightarrow> Trie \<Rightarrow> bool) \<Rightarrow> fault + (Trie \<times> 'a) \<Rightarrow> fault + (Trie \<times> 'a) \<Rightarrow> bool" where
  "sameOutcome R a b =
     (case (a, b) of
        (Inl f, Inl g) \<Rightarrow> f = g
      | (Inr (ta, x), Inr (tb, y)) \<Rightarrow> x = y \<and> R ta tb
      | _ \<Rightarrow> False)"

lemma sameView_cache_left:
  assumes "sameView t t1" "map_of (cached (log t1)) h = Some bs" "fromStore t h bs"
  shows "sameView (t\<lparr>log := log_cache (log t) h bs\<rparr>) t1"
  using assms
  by (auto simp: sameView_def log_cache_def update_conv' fromStore_def)

lemma sameView_cache_both:
  assumes "sameView t t1" "map_of (cached (log t1)) h = None" 
  shows "sameView (t\<lparr>log := log_cache (log t) h bs\<rparr>) (t1\<lparr>log := log_cache (log t1) h bs\<rparr>)"
  using assms
  by (auto simp: sameView_def log_cache_def update_conv' fromStore_def)

lemma sameOutcome_Inr: "R ta tb \<Longrightarrow> sameOutcome R (Inr (ta, x)) (Inr (tb, x))"
  by (simp add: sameOutcome_def)

lemma sameOutcome_Inl: "sameOutcome R (Inl f) (Inl f)"
  by (simp add: sameOutcome_def)

lemma sameOutcome_decoded:
  "R t t1 \<Longrightarrow>
   sameOutcome R (case decodeNode bs of Inl f \<Rightarrow> Inl f | Inr (n, err) \<Rightarrow> Inr (t, n, err))
     (case decodeNode bs of Inl f \<Rightarrow> Inl f | Inr (n, err) \<Rightarrow> Inr (t1, n, err))"
  by (cases "decodeNode bs") (auto simp: sameOutcome_def)

lemma resolveHash_sameView:
  assumes sv: "sameView t t1"
  shows "sameOutcome sameView (resolveHash t h) (resolveHash t1 h)"
proof -
  from sv have eq: "db t1 = db t" "inserted (log t1) = inserted (log t)"
    "deleted (log t1) = deleted (log t)"
    and c: "map_of (cached (log t1)) h = map_of (cached (log t)) h \<or>
           (\<exists>bs. map_of (cached (log t1)) h = Some bs \<and> fromStore t h bs)"
    by (auto simp: sameView_def)
  show ?thesis
  proof (cases "map_of (deleted (log t)) h = None")
    case False
    then have "resolveHash t h = Inr (t, None, Some ErrNodeDeleted)"
      "resolveHash t1 h = Inr (t1, None, Some ErrNodeDeleted)"
      using eq(3) by (simp_all add: resolveHash_def)
    with sv show ?thesis by (simp add: sameOutcome_Inr)
  next
    case nd: True
    show ?thesis
    proof (cases "map_of (inserted (log t)) h")
      case (Some bs)
      with nd eq(2,3) have
        "resolveHash t h = (case decodeNode bs of Inl f \<Rightarrow> Inl f | Inr (n, err) \<Rightarrow> Inr (t, n, err))"
        "resolveHash t1 h = (case decodeNode bs of Inl f \<Rightarrow> Inl f | Inr (n, err) \<Rightarrow> Inr (t1, n, err))"
        by (simp_all add: resolveHash_def)
      with sv show ?thesis by (simp add: sameOutcome_decoded)
    next
      case ni: None
      from c show ?thesis
      proof
        assume same: "map_of (cached (log t1)) h = map_of (cached (log t)) h"
        show ?thesis
        proof (cases "map_of (cached (log t)) h")
          case (Some bs)
          with nd ni same eq(2,3) have
            "resolveHash t h = (case decodeNode bs of Inl f \<Rightarrow> Inl f | Inr (n, err) \<Rightarrow> Inr (t, n, err))"
            "resolveHash t1 h = (case decodeNode bs of Inl f \<Rightarrow> Inl f | Inr (n, err) \<Rightarrow> Inr (t1, n, err))"
            by (simp_all add: resolveHash_def)
          with sv show ?thesis by (simp add: sameOutcome_decoded)
        next
          case None
          with same have n1: "map_of (cached (log t1)) h = None" by simp
          have r: "resolveHash t h = fetchFromDB t h" "resolveHash t1 h = fetchFromDB t1 h"
            using nd ni None n1 eq(2,3) by (simp_all add: resolveHash_def)
          show ?thesis
          proof (cases "map_of (db t) h")
            case None
            with r eq(1) show ?thesis by (simp add: fetchFromDB_def sameOutcome_Inl)
          next
            case (Some bs)
            show ?thesis
            proof (cases "decodeNode bs")
              case (Inl f)
              with r eq(1) Some show ?thesis by (simp add: fetchFromDB_def sameOutcome_Inl)
            next
              case (Inr p)
              obtain n err where p: "p = (n, err)" by (cases p)
              from r eq(1) Some Inr p sameView_cache_both [OF sv n1, of bs] show ?thesis
                by (simp add: fetchFromDB_def sameOutcome_Inl sameOutcome_Inr)
            qed
          qed
        qed
      next
        assume "\<exists>bs. map_of (cached (log t1)) h = Some bs \<and> fromStore t h bs"
        then obtain bs where bs: "map_of (cached (log t1)) h = Some bs" "fromStore t h bs"
          by blast
        from bs(2) obtain n where n: "decodeNode bs = Inr (n, None)"
          by (auto simp: fromStore_def split: sum.splits option.splits)
        from bs(2) have st: "map_of (db t) h = Some bs" "bs \<noteq> []" "map_of (cached (log t)) h = None"
          by (auto simp: fromStore_def)
        have "resolveHash t h = Inr (t\<lparr>log := log_cache (log t) h bs\<rparr>, n, None)"
          using nd ni st n by (simp add: resolveHash_def fetchFromDB_def)
        moreover have "resolveHash t1 h = Inr (t1, n, None)"
          using nd ni eq(2,3) bs(1) n by (simp add: resolveHash_def)
        ultimately show ?thesis
          using sameView_cache_left [OF sv bs] by (simp add: sameOutcome_Inr)
      qed
    qed
  qed
qed

lemma sameOutcome_cases:
  "sameOutcome R a b \<Longrightarrow>
     (\<exists>f. a = Inl f \<and> b = Inl f) \<or> (\<exists>ta tb x. a = Inr (ta, x) \<and> b = Inr (tb, x) \<and> R ta tb)"
  by (cases a; cases b) (auto simp: sameOutcome_def)

lemma tryGet_sameView:
  "sameView t t1 \<Longrightarrow> sameOutcome sameView (tryGet fuel t n sk) (tryGet fuel t1 n sk)"
proof (induction fuel arbitrary: t t1 n sk)
  case 0
  then show ?case by (simp add: sameOutcome_Inl)
next
  case (Suc fuel)
  show ?case
  proof (cases n)
    case None
    with Suc.prems show ?thesis by (simp add: sameOutcome_Inr)
  next
    case (Some nd)
    show ?thesis
    proof (cases nd)
      case (leafNode k v)
      with Some Suc.prems show ?thesis by (simp add: sameOutcome_Inr)
    next
      case (extNode k c)
      have "sameOutcome sameView (tryGet fuel t c (drop (length k) sk))
              (tryGet fuel t1 c (drop (length k) sk))"
        by (rule Suc.IH [OF Suc.prems])
      with Some extNode Suc.prems show ?thesis
        by (simp add: sameOutcome_Inr del: tryGet.simps(2) add: tryGet.simps(2) [of fuel])
    next
      case (branchNode cs tg)
      have "sameOutcome sameView (tryGet fuel t (cs ! unat (hd sk)) (tl sk))
              (tryGet fuel t1 (cs ! unat (hd sk)) (tl sk))"
        by (rule Suc.IH [OF Suc.prems])
      with Some branchNode Suc.prems show ?thesis
        by (simp add: sameOutcome_Inr sameOutcome_Inl)
    next
      case (hashNode h)
      from sameOutcome_cases [OF resolveHash_sameView [OF Suc.prems, of "BytesToHash h"]]
      show ?thesis
      proof (elim disjE exE conjE)
        fix f assume "resolveHash t (BytesToHash h) = Inl f" "resolveHash t1 (BytesToHash h) = Inl f"
        with Some hashNode show ?thesis by (simp add: sameOutcome_Inl)
      next
        fix ta tb x
        assume r: "resolveHash t (BytesToHash h) = Inr (ta, x)"
          "resolveHash t1 (BytesToHash h) = Inr (tb, x)" and v: "sameView ta tb"
        obtain rn err where x: "x = (rn, err)" by (cases x)
        have "sameOutcome sameView (tryGet fuel ta rn sk) (tryGet fuel tb rn sk)"
          by (rule Suc.IH [OF v])
        with Some hashNode r x v show ?thesis
          by (simp add: sameOutcome_Inr)
      qed
    qed
  qed
qed

lemma Get_sameView:
  assumes "sameView t t1"
  shows "sameOutcome sameView (Get K fuel t key) (Get K fuel t1 key)"
proof (cases "rootHash t = EmptyHash K")
  case True
  moreover from assms have "rootHash t1 = rootHash t" by (simp add: sameView_def)
  ultimately show ?thesis using assms by (simp add: Get_def sameOutcome_Inr)
next
  case False
  from assms have r: "rootHash t1 = rootHash t" by (simp add: sameView_def)
  from sameOutcome_cases [OF resolveHash_sameView [OF assms, of "rootHash t"]]
  show ?thesis
  proof (elim disjE exE conjE)
    fix f assume "resolveHash t (rootHash t) = Inl f" "resolveHash t1 (rootHash t) = Inl f"
    with False r show ?thesis by (simp add: Get_def sameOutcome_Inl)
  next
    fix ta tb x
    assume rr: "resolveHash t (rootHash t) = Inr (ta, x)"
      "resolveHash t1 (rootHash t) = Inr (tb, x)" and v: "sameView ta tb"
    obtain rn err where x: "x = (rn, err)" by (cases x)
    have "sameOutcome sameView (tryGet fuel ta rn (bytesToNibbles key))
            (tryGet fuel tb rn (bytesToNibbles key))"
      by (rule tryGet_sameView [OF v])
    with False r rr x v show ?thesis
      by (simp add: Get_def sameOutcome_Inr)
  qed
qed

text \<open>
  C3, as stated: after \<^verbatim>\<open>T.Insert(k, v)\<close> the three maps of \<^verbatim>\<open>T.log\<close> are unchanged. They
  are not all: on a trie loaded from the store, resolving the root fetches it and writes it
  to the cache of the receiver.
\<close>

theorem Insert_changes_cache_counterexample:
  "map_sum id (\<lambda>(t1, t'). cached (log t1))
     (Insert K0 2 (NewTrie (BytesToHash [1, 0x12, 2, 1, 2, 0])
                     [(BytesToHash [1, 0x12, 2, 1, 2, 0], [1, 0x12, 2, 1, 2, 0])]) [0x12] [9])
     = Inr [(BytesToHash [1, 0x12, 2, 1, 2, 0], [1, 0x12, 2, 1, 2, 0])]
   \<and> cached (log (NewTrie (BytesToHash [1, 0x12, 2, 1, 2, 0])
                     [(BytesToHash [1, 0x12, 2, 1, 2, 0], [1, 0x12, 2, 1, 2, 0])])) = []"
  by code_simp

text \<open>
  C3, amended: after \<^verbatim>\<open>T' = T.Insert(k, v)\<close> the root hash of \<open>T\<close> and the inserted and
  deleted maps of its log are unchanged; its cached map keeps its entries and may gain, after
  them, entries that the insert fetched from the store, each the store's value for a hash
  that was in none of the three maps; and \<^verbatim>\<open>T.Get(k)\<close> returns what it returned before.
\<close>

theorem Insert_leaves_receiver:
  assumes "Insert K fuel t key v = Inr (t1, t')"
  shows "rootHash t1 = rootHash t \<and> db t1 = db t
       \<and> inserted (log t1) = inserted (log t) \<and> deleted (log t1) = deleted (log t)
       \<and> take (length (cached (log t))) (cached (log t1)) = cached (log t)
       \<and> (\<forall>(h, bs) \<in> set (drop (length (cached (log t))) (cached (log t1))).
            map_of (db t) h = Some bs \<and> map_of (cached (log t)) h = None \<and>
            map_of (inserted (log t)) h = None \<and> map_of (deleted (log t)) h = None)
       \<and> map_sum id snd (Get K f t1 key) = map_sum id snd (Get K f t key)"
proof -
  have g: "cacheExtends t t1" using Insert_grows [OF assms] .
  have "sameOutcome sameView (Get K f t key) (Get K f t1 key)"
    using Get_sameView [OF cacheExtends_sameView [OF g]] .
  then have "map_sum id snd (Get K f t1 key) = map_sum id snd (Get K f t key)"
    by (auto dest!: sameOutcome_cases)
  with g show ?thesis
    by (auto simp: cacheExtends_def fromStore_def)
qed

theorem Insert_leaves_receiver_witness:
  "Insert K0 2 (NewTrie (BytesToHash [1, 0x12, 2, 1, 2, 0])
                  [(BytesToHash [1, 0x12, 2, 1, 2, 0], [1, 0x12, 2, 1, 2, 0])]) [0x12] [9]
     = Inr (\<lparr>db = [(BytesToHash [1, 0x12, 2, 1, 2, 0], [1, 0x12, 2, 1, 2, 0])],
             rootHash = BytesToHash [1, 0x12, 2, 1, 2, 0],
             log = \<lparr>cached = [(BytesToHash [1, 0x12, 2, 1, 2, 0], [1, 0x12, 2, 1, 2, 0])],
                     inserted = [], deleted = []\<rparr>\<rparr>,
            \<lparr>db = [(BytesToHash [1, 0x12, 2, 1, 2, 0], [1, 0x12, 2, 1, 2, 0])],
             rootHash = BytesToHash [1, 0x12, 1, 9, 0],
             log = \<lparr>cached = [],
                     inserted = [(BytesToHash [1, 0x12, 1, 9, 0], [1, 0x12, 1, 9, 0])],
                     deleted = [(BytesToHash [1, 0x12, 2, 1, 2, 0], [])]\<rparr>\<rparr>)
   \<and> map_sum id snd
         (Get K0 2 \<lparr>db = [(BytesToHash [1, 0x12, 2, 1, 2, 0], [1, 0x12, 2, 1, 2, 0])],
             rootHash = BytesToHash [1, 0x12, 2, 1, 2, 0],
             log = \<lparr>cached = [(BytesToHash [1, 0x12, 2, 1, 2, 0], [1, 0x12, 2, 1, 2, 0])],
                     inserted = [], deleted = []\<rparr>\<rparr> [0x12])
       = map_sum id snd
         (Get K0 2 (NewTrie (BytesToHash [1, 0x12, 2, 1, 2, 0])
                  [(BytesToHash [1, 0x12, 2, 1, 2, 0], [1, 0x12, 2, 1, 2, 0])]) [0x12])"
proof -
  let ?bs = "[1, 0x12, 2, 1, 2, 0] :: bytes"
  let ?T = "NewTrie (BytesToHash ?bs) [(BytesToHash ?bs, ?bs)]"
  let ?T1 = "\<lparr>db = [(BytesToHash ?bs, ?bs)], rootHash = BytesToHash ?bs,
             log = \<lparr>cached = [(BytesToHash ?bs, ?bs)], inserted = [], deleted = []\<rparr>\<rparr>"
  let ?T' = "\<lparr>db = [(BytesToHash ?bs, ?bs)], rootHash = BytesToHash [1, 0x12, 1, 9, 0],
             log = \<lparr>cached = [],
                     inserted = [(BytesToHash [1, 0x12, 1, 9, 0], [1, 0x12, 1, 9, 0])],
                     deleted = [(BytesToHash ?bs, [])]\<rparr>\<rparr>"
  have run: "Insert K0 2 ?T [0x12] [9] = Inr (?T1, ?T')"
    by code_simp
  from Insert_leaves_receiver [OF run, of 2] run show ?thesis
    by simp
qed


section \<open>A node that two places of the trie share\<close>

text \<open>
  The loops of the repository's tests: insert a list of keys and values one after the
  other, each into the trie the last insert returned; delete a list of keys likewise.
\<close>

fun insertAll :: "(bytes \<Rightarrow> bytes) \<Rightarrow> nat \<Rightarrow> Trie \<Rightarrow> (bytes \<times> bytes) list \<Rightarrow> fault + Trie" where
  "insertAll K fuel t [] = Inr t"
| "insertAll K fuel t ((k, v) # kvs) =
     (case Insert K fuel t k v of Inl f \<Rightarrow> Inl f | Inr (t1, t') \<Rightarrow> insertAll K fuel t' kvs)"

fun deleteAll :: "(bytes \<Rightarrow> bytes) \<Rightarrow> nat \<Rightarrow> Trie \<Rightarrow> bytes list \<Rightarrow> fault + Trie" where
  "deleteAll K fuel t [] = Inr t"
| "deleteAll K fuel t (k # ks) =
     (case Delete K fuel t k of Inl f \<Rightarrow> Inl f | Inr (t1, t') \<Rightarrow> deleteAll K fuel t' ks)"

definition insertThenDelete ::
  "(bytes \<Rightarrow> bytes) \<Rightarrow> nat \<Rightarrow> (bytes \<times> bytes) list \<Rightarrow> bytes list \<Rightarrow> fault + Trie" where
  "insertThenDelete K fuel kvs ks =
     (case insertAll K fuel (NewTrie (EmptyHash K) []) kvs of
        Inl f \<Rightarrow> Inl f
      | Inr t \<Rightarrow> deleteAll K fuel t ks)"

text \<open>A value of 27 bytes: with a key of three nibbles the leaf encodes to 32 bytes.\<close>

definition longValue :: bytes where
  "longValue = replicate 27 7"

text \<open>
  C2 says that inserting the entries of a mapping in any two orders gives tries with equal
  root hashes. The keys \<open>1a00\<close> and \<open>2a00\<close> with the same long value put the same leaf
  (key \<open>a00\<close>) under slots 1 and 2 of the root branch, one node under one hash. Inserting
  \<open>1a01\<close> then splits the leaf under slot 1, and \<^verbatim>\<open>merge\<close> marks the hash of the leaf it
  replaced as deleted while slot 2 still refers to it: the insert of \<open>2a01\<close> cannot resolve
  it and panics. In the order \<open>1a00, 1a01, 2a00, 2a01\<close> the four inserts go through.
\<close>

theorem Insert_order_shared_leaf:
  "map_sum id rootHash
     (insertAll K0 20 (NewTrie (EmptyHash K0) [])
        [([0x1a, 0x00], longValue), ([0x2a, 0x00], longValue), ([0x1a, 0x01], [8]), ([0x2a, 0x01], [9])])
     = Inl (PanicMsg ''insert: can't resolve hashNode'')
   \<and> map_sum id rootHash
     (insertAll K0 20 (NewTrie (EmptyHash K0) [])
        [([0x1a, 0x00], longValue), ([0x1a, 0x01], [8]), ([0x2a, 0x00], longValue), ([0x2a, 0x01], [9])])
     = Inr [0, 32, 33, 166, 132, 59, 30, 18, 21, 0, 0, 0, 0, 0, 0, 0, 0, 2, 0, 0,
            0, 0, 0, 0, 2, 2, 0, 0, 0, 0, 0, 0]"
  by code_simp

text \<open>
  C4 says that deleting every inserted key, in any order, gives the root \<open>EmptyHash\<close>.
  With the keys \<open>1a00\<close> and \<open>2a00\<close> on the same long value and a third key \<open>3b00\<close>,
  deleting \<open>1a00\<close> marks the hash of the shared leaf as deleted: \<^verbatim>\<open>Get\<close> of \<open>2a00\<close> is absent
  from then on and deleting \<open>2a00\<close> panics. Deleting in the order \<open>3b00, 2a00, 1a00\<close> does
  end at \<open>EmptyHash\<close>.
\<close>

theorem Delete_all_shared_leaf:
  "map_sum id rootHash
     (insertThenDelete K0 20
        [([0x1a, 0x00], longValue), ([0x2a, 0x00], longValue), ([0x3b, 0x00], [9])]
        [[0x1a, 0x00], [0x2a, 0x00], [0x3b, 0x00]])
     = Inl (PanicMsg ''delete: can't resolve hashNode'')
   \<and> (case insertThenDelete K0 20
              [([0x1a, 0x00], longValue), ([0x2a, 0x00], longValue), ([0x3b, 0x00], [9])]
              [[0x1a, 0x00]] of
         Inl f \<Rightarrow> Inl f
       | Inr t \<Rightarrow> map_sum id snd (Get K0 20 t [0x2a, 0x00]))
     = Inr []
   \<and> map_sum id rootHash
     (insertThenDelete K0 20
        [([0x1a, 0x00], longValue), ([0x2a, 0x00], longValue), ([0x3b, 0x00], [9])]
        [[0x3b, 0x00], [0x2a, 0x00], [0x1a, 0x00]])
     = Inr (EmptyHash K0)"
  by code_simp


section \<open>Nibbles and the bounds of the children array\<close>

text \<open>
  A key of nibbles; a node all of whose keys are nibbles, whose branches have 16 children and
  whose hash nodes hold 32 bytes. Every node that \<open>decodeNode\<close> returns is one, and the nodes
  that insert builds from such nodes are.
\<close>

definition nibbles :: "bytes \<Rightarrow> bool" where
  "nibbles ks = (\<forall>x \<in> set ks. unat x < 16)"

fun wfNode :: "node \<Rightarrow> bool" where
  "wfNode (leafNode k v) = nibbles k"
| "wfNode (extNode k c) = (nibbles k \<and> (case c of None \<Rightarrow> True | Some n \<Rightarrow> wfNode n))"
| "wfNode (branchNode cs t) =
     (length cs = 16 \<and> (\<forall>c \<in> set cs. case c of None \<Rightarrow> True | Some n \<Rightarrow> wfNode n))"
| "wfNode (hashNode h) = (length h = HashLength)"

definition wfOpt :: "node option \<Rightarrow> bool" where
  "wfOpt c = (case c of None \<Rightarrow> True | Some n \<Rightarrow> wfNode n)"

lemma nibbles_Nil [simp]: "nibbles []"
  by (simp add: nibbles_def)

lemma nibbles_Cons [simp]: "nibbles (x # xs) \<longleftrightarrow> unat x < 16 \<and> nibbles xs"
  by (simp add: nibbles_def)

lemma nibbles_take: "nibbles ks \<Longrightarrow> nibbles (take n ks)"
  by (auto simp: nibbles_def dest: in_set_takeD)

lemma nibbles_drop: "nibbles ks \<Longrightarrow> nibbles (drop n ks)"
  by (auto simp: nibbles_def dest: in_set_dropD)

lemma nibbles_tl: "nibbles ks \<Longrightarrow> nibbles (tl ks)"
  by (cases ks) auto

lemma nibbles_hd: "nibbles ks \<Longrightarrow> ks \<noteq> [] \<Longrightarrow> unat (hd ks) < 16"
  by (cases ks) auto


lemma byte_div_16: "unat ((b :: byte) div 16) < 16"
proof -
  have "unat b < 256" using unsigned_less [of b] by simp
  then show ?thesis by (simp add: unat_div)
qed

lemma byte_mod_16: "unat ((b :: byte) mod 16) < 16"
  by (simp add: unat_mod)

lemma nibbles_bytesToNibbles: "nibbles (bytesToNibbles bs)"
  by (induction bs) (simp_all add: byte_div_16 byte_mod_16)

lemma length_bytesToNibbles: "length (bytesToNibbles bs) = 2 * length bs"
  by (induction bs) simp_all

lemma decodeKey_nibbles: "decodeKey flag bs = Inr (ks, t) \<Longrightarrow> nibbles ks"
  using nibbles_bytesToNibbles [of bs]
  by (auto simp: decodeKey_def Let_def nibbles_take split: if_splits)

lemma decodeKey_fault: "decodeKey flag bs = Inl f \<Longrightarrow> f = SliceOutOfRange"
  by (auto simp: decodeKey_def Let_def split: if_splits)


lemma getFields_length: "getFields n bs = Some (fs, r) \<Longrightarrow> length fs = n"
  by (induction n arbitrary: bs fs r) (auto split: option.splits)

lemma unmarshalBranchNode_16: "unmarshalBranchNode raw = Some (cs, t) \<Longrightarrow> length cs = 16"
  by (auto simp: unmarshalBranchNode_def split: option.splits list.splits
      dest!: getFields_length)

lemma decodeLeafNode_wf: "decodeLeafNode raw flag = Inr (Some n, e) \<Longrightarrow> wfNode n"
  by (auto simp: decodeLeafNode_def split: option.splits sum.splits dest!: decodeKey_nibbles)

lemma decodeLeafNode_fault: "decodeLeafNode raw flag = Inl f \<Longrightarrow> f = SliceOutOfRange"
  by (auto simp: decodeLeafNode_def split: option.splits sum.splits dest!: decodeKey_fault)

lemma decodeExtNode_wf:
  assumes "\<And>c n e. length c \<le> length raw \<Longrightarrow> dec c = Inr (Some n, e) \<Longrightarrow> wfNode n"
    and "decodeExtNode dec raw flag = Inr (Some n, e)"
  shows "wfNode n"
proof -
  from assms(2) obtain rk rn ks t where
    u: "unmarshalExtNode raw = Some (rk, rn)" and k: "decodeKey flag rk = Inr (ks, t)"
    by (auto simp: decodeExtNode_def split: option.splits sum.splits)
  have len: "length rn \<le> length raw"
    using u by (auto simp: unmarshalExtNode_def dest: unmarshalPair_shorter)
  show ?thesis
  proof (cases "length rn = HashLength")
    case True
    with assms(2) u k have "n = extNode ks (Some (hashNode rn))"
      by (simp add: decodeExtNode_def)
    with True decodeKey_nibbles [OF k] show ?thesis by simp
  next
    case False
    with assms(2) u k obtain child where d: "dec rn = Inr (child, e)" and n: "n = extNode ks child"
      by (auto simp: decodeExtNode_def split: sum.splits)
    have "wfNode c" if "child = Some c" for c
      using assms(1) [OF len] d that by simp
    with n decodeKey_nibbles [OF k] show ?thesis
      by (simp split: option.splits)
  qed
qed

lemma decodeExtNode_fault:
  assumes "\<And>c f. length c \<le> length raw \<Longrightarrow> dec c = Inl f \<Longrightarrow> f = SliceOutOfRange"
    and "decodeExtNode dec raw flag = Inl f"
  shows "f = SliceOutOfRange"
proof (cases "unmarshalExtNode raw")
  case None
  with assms(2) show ?thesis by (simp add: decodeExtNode_def)
next
  case (Some p)
  obtain rk rn where p: "p = (rk, rn)" by (cases p)
  have len: "length rn \<le> length raw"
    using Some p by (auto simp: unmarshalExtNode_def dest: unmarshalPair_shorter)
  show ?thesis
  proof (cases "decodeKey flag rk")
    case (Inl g)
    with assms(2) Some p decodeKey_fault [OF Inl] show ?thesis
      by (simp add: decodeExtNode_def)
  next
    case (Inr q)
    obtain ks t where "q = (ks, t)" by (cases q)
    with Inr assms(2) Some p have "dec rn = Inl f"
      by (auto simp: decodeExtNode_def split: if_splits sum.splits)
    with assms(1) [OF len] show ?thesis by simp
  qed
qed

lemma decodeChildren_wf:
  assumes "\<And>c n e. c \<in> set cs \<Longrightarrow> dec c = Inr (Some n, e) \<Longrightarrow> wfNode n"
    and "decodeChildren dec cs err = Inr (ns, e')"
  shows "length ns = length cs \<and> (\<forall>c \<in> set ns. wfOpt c)"
  using assms
proof (induction cs arbitrary: err ns e')
  case Nil
  then show ?case by simp
next
  case (Cons c cs)
  have sub: "\<And>c' n e. c' \<in> set cs \<Longrightarrow> dec c' = Inr (Some n, e) \<Longrightarrow> wfNode n"
    using Cons.prems(1) by (meson list.set_intros(2))
  have ih: "length ms = length cs \<and> (\<forall>c \<in> set ms. wfOpt c)"
    if d: "decodeChildren dec cs err1 = Inr (ms, e2)" for err1 ms e2
    by (rule Cons.IH [OF _ d]) (blast intro: sub)
  show ?case
  proof (cases "length c = 0")
    case True
    with Cons.prems(2) obtain ms where "decodeChildren dec cs err = Inr (ms, e')" "ns = None # ms"
      by (auto split: sum.splits)
    with ih show ?thesis by (auto simp: wfOpt_def)
  next
    case nz: False
    show ?thesis
    proof (cases "length c = HashLength")
      case True
      with nz Cons.prems(2) obtain ms where
        "decodeChildren dec cs err = Inr (ms, e')" "ns = Some (hashNode c) # ms"
        by (auto split: sum.splits)
      with ih True show ?thesis by (auto simp: wfOpt_def)
    next
      case False
      with nz Cons.prems(2) obtain n err1 ms where
        d: "dec c = Inr (n, err1)" and r: "decodeChildren dec cs err1 = Inr (ms, e')"
        and ns: "ns = n # ms"
        by (auto split: sum.splits)
      have "wfOpt n"
        using Cons.prems(1) [of c] d by (auto simp: wfOpt_def split: option.splits)
      with ih [OF r] ns show ?thesis by simp
    qed
  qed
qed

lemma decodeChildren_fault:
  assumes "\<And>c f. c \<in> set cs \<Longrightarrow> dec c = Inl f \<Longrightarrow> f = SliceOutOfRange"
    and "decodeChildren dec cs err = Inl f"
  shows "f = SliceOutOfRange"
  using assms
proof (induction cs arbitrary: err)
  case Nil
  then show ?case by simp
next
  case (Cons c cs)
  have sub: "\<And>c' g. c' \<in> set cs \<Longrightarrow> dec c' = Inl g \<Longrightarrow> g = SliceOutOfRange"
    using Cons.prems(1) by (meson list.set_intros(2))
  have ih: "f = SliceOutOfRange" if d: "decodeChildren dec cs err1 = Inl f" for err1
    by (rule Cons.IH [OF _ d]) (blast intro: sub)
  show ?case
  proof (cases "length c = 0 \<or> length c = HashLength")
    case True
    with Cons.prems(2) have "decodeChildren dec cs err = Inl f"
      by (auto split: sum.splits if_splits)
    with ih show ?thesis .
  next
    case False
    show ?thesis
    proof (cases "dec c")
      case (Inl g)
      with False Cons.prems(2) have "g = f" by simp
      with Cons.prems(1) [of c g] Inl show ?thesis by simp
    next
      case (Inr p)
      obtain n err1 where "p = (n, err1)" by (cases p)
      with Inr False Cons.prems(2) have "decodeChildren dec cs err1 = Inl f"
        by (auto split: sum.splits)
      with ih show ?thesis .
    qed
  qed
qed

lemma decodeBranchNode_wf:
  assumes "\<And>c n e. length c \<le> length raw \<Longrightarrow> dec c = Inr (Some n, e) \<Longrightarrow> wfNode n"
    and "decodeBranchNode dec raw = Inr (Some n, e)"
  shows "wfNode n"
proof -
  from assms(2) obtain cs t children where
    u: "unmarshalBranchNode raw = Some (cs, t)"
    and d: "decodeChildren dec cs None = Inr (children, e)" and n: "n = branchNode children t"
    by (auto simp: decodeBranchNode_def split: option.splits sum.splits)
  have "length children = length cs \<and> (\<forall>c \<in> set children. wfOpt c)"
    by (rule decodeChildren_wf [OF _ d])
       (auto intro: assms(1) unmarshalBranchNode_shorter [OF u])
  with n unmarshalBranchNode_16 [OF u] show ?thesis
    by (auto simp: wfOpt_def)
qed

lemma decodeBranchNode_fault:
  assumes "\<And>c f. length c \<le> length raw \<Longrightarrow> dec c = Inl f \<Longrightarrow> f = SliceOutOfRange"
    and "decodeBranchNode dec raw = Inl f"
  shows "f = SliceOutOfRange"
proof -
  from assms(2) obtain cs t where
    u: "unmarshalBranchNode raw = Some (cs, t)"
    and d: "decodeChildren dec cs None = Inl f"
    by (auto simp: decodeBranchNode_def split: option.splits sum.splits)
  show ?thesis
    by (rule decodeChildren_fault [OF _ d])
       (auto intro: assms(1) unmarshalBranchNode_shorter [OF u])
qed

lemma decodeNode_wf_fault:
  "(\<forall>n e. decodeNode bs = Inr (Some n, e) \<longrightarrow> wfNode n) \<and>
   (\<forall>f. decodeNode bs = Inl f \<longrightarrow> f = SliceOutOfRange)"
proof (induction "length bs" arbitrary: bs rule: less_induct)
  case less
  show ?case
  proof (cases "length bs \<le> 1")
    case True
    then show ?thesis by (simp add: decodeNode.simps)
  next
    case False
    let ?flag = "last bs" and ?raw = "butlast bs"
    have shorter: "length c < length bs" if "length c \<le> length ?raw" for c :: bytes
      using that False by simp
    have ihw: "wfNode n" if "length c \<le> length ?raw" "decodeNode c = Inr (Some n, e)" for c n e
      using less [OF shorter [OF that(1)]] that(2) by blast
    have ihf: "f = SliceOutOfRange" if "length c \<le> length ?raw" "decodeNode c = Inl f" for c f
      using less [OF shorter [OF that(1)]] that(2) by blast
    consider (leaf) "?flag AND 0x0f = leafType"
      | (ext) "?flag AND 0x0f \<noteq> leafType" "?flag AND 0x0f = extType"
      | (branch) "?flag AND 0x0f \<noteq> leafType" "?flag AND 0x0f \<noteq> extType"
          "?flag AND 0x0f = branchType"
      | (other) "?flag AND 0x0f \<noteq> leafType" "?flag AND 0x0f \<noteq> extType"
          "?flag AND 0x0f \<noteq> branchType"
      by blast
    then show ?thesis
    proof cases
      case leaf
      with False have "decodeNode bs = decodeLeafNode ?raw ?flag"
        by (simp add: decodeNode.simps [of bs] Let_def)
      then show ?thesis
        by (auto dest: decodeLeafNode_wf decodeLeafNode_fault)
    next
      case ext
      with False have "decodeNode bs = decodeExtNode decodeNode ?raw ?flag"
        by (simp add: decodeNode.simps [of bs] Let_def)
      then show ?thesis
        using decodeExtNode_wf [where dec = decodeNode and raw = ?raw and flag = ?flag]
          decodeExtNode_fault [where dec = decodeNode and raw = ?raw and flag = ?flag]
          ihw ihf
        by metis
    next
      case branch
      with False have "decodeNode bs = decodeBranchNode decodeNode ?raw"
        by (simp add: decodeNode.simps [of bs] Let_def)
      then show ?thesis
        using decodeBranchNode_wf [where dec = decodeNode and raw = ?raw]
          decodeBranchNode_fault [where dec = decodeNode and raw = ?raw]
          ihw ihf
        by metis
    next
      case other
      with False show ?thesis
        by (simp add: decodeNode.simps [of bs] Let_def)
    qed
  qed
qed

lemma decodeNode_wf: "decodeNode bs = Inr (Some n, e) \<Longrightarrow> wfNode n"
  using decodeNode_wf_fault by blast

lemma decodeNode_fault: "decodeNode bs = Inl f \<Longrightarrow> f = SliceOutOfRange"
  using decodeNode_wf_fault by blast

lemma wfNode_ext: "wfNode (extNode k c) \<longleftrightarrow> nibbles k \<and> wfOpt c"
  by (simp add: wfOpt_def)

lemma wfNode_branch:
  "wfNode (branchNode cs t) \<longleftrightarrow> length cs = 16 \<and> (\<forall>c \<in> set cs. wfOpt c)"
  by (simp add: wfOpt_def)

lemma wfOpt_simps [simp]: "wfOpt None" "wfOpt (Some n) = wfNode n"
  by (simp_all add: wfOpt_def)

lemma wfOpt_nth: "\<forall>c \<in> set cs. wfOpt c \<Longrightarrow> i < length cs \<Longrightarrow> wfOpt (cs ! i)"
  by simp

lemma wfOpt_update:
  "\<forall>c \<in> set cs. wfOpt c \<Longrightarrow> wfOpt x \<Longrightarrow> \<forall>c \<in> set (cs[i := x]). wfOpt c"
  by (metis insertE set_update_subset_insert subsetD)

lemma wf_noChildren: "length noChildren = 16 \<and> (\<forall>c \<in> set noChildren. wfOpt c)"
  by (simp add: noChildren_def)

lemma wfNode_branchWithTarget: "wfNode (branchWithTarget t)"
  using wf_noChildren by (simp add: branchWithTarget_def wfNode_branch del: wfNode.simps)

lemma branchWithChild_ok:
  "pos < 16 \<Longrightarrow> wfOpt n \<Longrightarrow> \<exists>b. branchWithChild pos n t = Inr b \<and> wfNode b"
  using wf_noChildren wfOpt_update [of noChildren n pos]
  by (simp add: branchWithChild_def wfNode_branch del: wfNode.simps)

lemma updateChild_ok:
  "pos < 16 \<Longrightarrow> \<exists>b. updateChild cs t pos n = Inr b"
  by (simp add: updateChild_def)

text \<open>Packing nibbles, and what the encoders can fail with.\<close>

fun packNibbles :: "bytes \<Rightarrow> bytes" where
  "packNibbles (a # b # ns) = (push_bit 4 a OR b) # packNibbles ns"
| "packNibbles ns = []"

lemma nibblesToBytes_even: "even (length ns) \<Longrightarrow> nibblesToBytes ns = Inr (packNibbles ns)"
  by (induction ns rule: nibblesToBytes.induct) simp_all

definition padNibbles :: "bytes \<Rightarrow> bytes" where
  "padNibbles ks = (if even (length ks) then ks else ks @ [0])"

definition keyFlag :: "bytes \<Rightarrow> byte \<Rightarrow> byte" where
  "keyFlag ks t = push_bit 4 (if even (length ks) then 0 else 1) OR t"

lemma encodeKey_eq: "encodeKey ks t = Inr (packNibbles (padNibbles ks), keyFlag ks t)"
proof (cases "even (length ks)")
  case True
  then show ?thesis
    by (simp add: encodeKey_def Let_def padNibbles_def keyFlag_def nibblesToBytes_even
        even_iff_mod_2_eq_zero)
next
  case False
  then have "even (length (ks @ [0]))" by simp
  from nibblesToBytes_even [OF this] False show ?thesis
    by (simp add: encodeKey_def Let_def padNibbles_def keyFlag_def even_iff_mod_2_eq_zero)
qed

lemma sequenceR_Inl: "sequenceR rs = Inl f \<Longrightarrow> Inl f \<in> set rs"
  by (induction rs) (auto split: sum.splits)

lemma cappedWith_Inl: "cappedWith K c r = Inl f \<Longrightarrow> r = Inl f"
  by (cases c) (auto simp: cappedWith_def split: sum.splits)

lemma Encode_fault: "Encode K n = Inl f \<Longrightarrow> f = NilDereference"
proof (induction K n rule: Encode.induct)
  case (1 K key val)
  then show ?case by (simp add: encodeKey_eq)
next
  case (2 K key child)
  show ?case
  proof (cases child)
    case None
    with 2 show ?thesis by simp
  next
    case (Some c)
    with "2.prems" have "cappedWith K c (Encode K c) = Inl f"
      by (auto simp: encodeKey_eq split: sum.splits)
    then have "Encode K c = Inl f" by (rule cappedWith_Inl)
    with "2.IH" Some show ?thesis by simp
  qed
next
  case (3 K children target)
  from "3.prems" have
    "sequenceR (map (\<lambda>child. case child of None \<Rightarrow> Inr []
                               | Some c \<Rightarrow> cappedWith K c (Encode K c)) children) = Inl f"
    by (auto split: sum.splits)
  from sequenceR_Inl [OF this] obtain child where
    mem: "child \<in> set children" and
    ch: "(case child of None \<Rightarrow> Inr [] | Some c \<Rightarrow> cappedWith K c (Encode K c)) = Inl f"
    by auto
  from ch obtain c where c: "child = Some c" "Encode K c = Inl f"
    by (cases child) (auto dest!: cappedWith_Inl)
  from "3.IH" [OF mem c(1) c(2)] show ?case .
next
  case (4 K h)
  then show ?case by simp
qed

lemma Hash_fault: "Hash K n = Inl f \<Longrightarrow> f = NilDereference"
  by (auto simp: Hash_def simp del: Encode.simps split: node.splits sum.splits
      dest!: Encode_fault)

lemma Capped_fault: "Capped K n = Inl f \<Longrightarrow> f = NilDereference"
  unfolding Capped_def by (auto simp del: Encode.simps dest!: cappedWith_Inl Encode_fault)

lemma mergeDeleted_fault: "mergeDeleted K lg old ns = Inl f \<Longrightarrow> f = NilDereference"
  by (induction ns arbitrary: lg)
     (auto split: sum.splits if_splits dest!: Hash_fault Capped_fault)

lemma mergeInserted_fault: "mergeInserted K lg r ns = Inl f \<Longrightarrow> f = NilDereference"
  by (induction ns arbitrary: lg)
     (auto simp: newRootCappedOf_def split: sum.splits if_splits option.splits
        dest!: Hash_fault Capped_fault Encode_fault)

lemma merge_fault: "merge K lg old r ds ns = Inl f \<Longrightarrow> f = NilDereference"
  by (auto simp: merge_def split: sum.splits dest!: mergeDeleted_fault mergeInserted_fault)

lemma getNodeFrom_fault: "getNodeFrom K ns h = Inl f \<Longrightarrow> f = NilDereference"
  by (induction ns) (auto split: sum.splits if_splits dest!: Hash_fault)

lemma resolveHash_fault: "resolveHash t h = Inl f \<Longrightarrow> f \<noteq> IndexOutOfRange"
  by (auto simp: resolveHash_def fetchFromDB_def split: option.splits sum.splits if_splits
      dest!: decodeNode_fault)

lemma resolveHash_wf: "resolveHash t h = Inr (t1, n, e) \<Longrightarrow> wfOpt n"
  by (cases n)
     (auto simp: resolveHash_def fetchFromDB_def split: option.splits sum.splits if_splits
        dest!: decodeNode_wf)

lemma tryGet_in_bounds: "nibbles sk \<Longrightarrow> tryGet fuel t n sk \<noteq> Inl IndexOutOfRange"
proof (induction fuel arbitrary: t n sk)
  case 0
  then show ?case by simp
next
  case (Suc fuel)
  show ?case
  proof (cases n)
    case None
    then show ?thesis by simp
  next
    case (Some nd)
    show ?thesis
    proof (cases nd)
      case (leafNode k v)
      with Some show ?thesis by simp
    next
      case (extNode k c)
      with Some Suc.IH [OF nibbles_drop [OF Suc.prems, of "length k"], of t c] show ?thesis
        by simp
    next
      case (branchNode cs tg)
      show ?thesis
      proof (cases "sk = []")
        case True
        with Some branchNode show ?thesis by simp
      next
        case False
        with Some branchNode nibbles_hd [OF Suc.prems False]
          Suc.IH [OF nibbles_tl [OF Suc.prems], of t "cs ! unat (hd sk)"]
        show ?thesis by simp
      qed
    next
      case (hashNode h)
      show ?thesis
      proof (cases "resolveHash t (BytesToHash h)")
        case (Inl f)
        with Some hashNode resolveHash_fault [OF Inl] show ?thesis by auto
      next
        case (Inr p)
        obtain t1 rn err where "p = (t1, rn, err)" by (cases p)
        with Inr Some hashNode Suc.IH [OF Suc.prems, of t1 rn] show ?thesis by simp
      qed
    qed
  qed
qed

lemma Get_in_bounds: "Get K fuel t key \<noteq> Inl IndexOutOfRange"
proof (cases "rootHash t = EmptyHash K")
  case True
  then show ?thesis by (simp add: Get_def)
next
  case False
  show ?thesis
  proof (cases "resolveHash t (rootHash t)")
    case (Inl f)
    with False resolveHash_fault [OF Inl] show ?thesis by (auto simp: Get_def)
  next
    case (Inr p)
    obtain t1 rn err where "p = (t1, rn, err)" by (cases p)
    with Inr False tryGet_in_bounds [OF nibbles_bytesToNibbles, of fuel t1 rn key]
    show ?thesis by (simp add: Get_def)
  qed
qed

lemma bindR_Inl:
  "(case r of Inl f \<Rightarrow> Inl f | Inr x \<Rightarrow> g x) = Inl e \<Longrightarrow>
     r = Inl e \<or> (\<exists>x. r = Inr x \<and> g x = Inl e)"
  by (cases r) auto

lemma insertToLeaf_in_bounds:
  assumes ih: "\<And>t n sk v. wfOpt n \<Longrightarrow> nibbles sk \<Longrightarrow> ins t n sk v \<noteq> Inl IndexOutOfRange"
    and lk: "nibbles lk" and sk: "nibbles sk"
  shows "insertToLeaf ins t lk lv sk v \<noteq> Inl IndexOutOfRange"
proof
  assume a: "insertToLeaf ins t lk lv sk v = Inl IndexOutOfRange"
  let ?ml = "matchingLength sk lk"
  consider (same) "?ml = length sk \<and> ?ml = length lk"
    | (none_empty) "\<not> (?ml = length sk \<and> ?ml = length lk)" "?ml = 0" "lk = []"
    | (none) "\<not> (?ml = length sk \<and> ?ml = length lk)" "?ml = 0" "lk \<noteq> []"
    | (some) "\<not> (?ml = length sk \<and> ?ml = length lk)" "?ml \<noteq> 0"
    by blast
  then show False
  proof cases
    case same
    with a show False by (simp add: insertToLeaf_def Let_def)
  next
    case none_empty
    with a have "ins t (Some (branchWithTarget lv)) sk v = Inl IndexOutOfRange"
      by (auto simp: insertToLeaf_def Let_def split: sum.splits)
    with ih [of "Some (branchWithTarget lv)" sk t v] sk wfNode_branchWithTarget
    show False by simp
  next
    case none
    from nibbles_hd [OF lk none(3)] nibbles_tl [OF lk]
      branchWithChild_ok [of "unat (hd lk)" "Some (leafNode (tl lk) lv)" "[]"]
    obtain b where b: "branchWithChild (unat (hd lk)) (Some (leafNode (tl lk) lv)) [] = Inr b"
      "wfNode b" by auto
    with a none have "ins t (Some b) sk v = Inl IndexOutOfRange"
      by (auto simp: insertToLeaf_def Let_def split: sum.splits)
    with ih [of "Some b" sk t v] sk b(2) show False by simp
  next
    case some
    let ?tmp = "if ?ml = length lk then branchWithTarget lv else leafNode (drop ?ml lk) lv"
    have wf: "wfNode ?tmp"
      using wfNode_branchWithTarget nibbles_drop [OF lk] by simp
    from a some have "ins t (Some ?tmp) (drop ?ml sk) v = Inl IndexOutOfRange"
      by (auto simp: insertToLeaf_def Let_def split: sum.splits)
    with ih [of "Some ?tmp" "drop ?ml sk" t v] nibbles_drop [OF sk] wf show False
      by simp
  qed
qed

lemma insertToExt_in_bounds:
  assumes ih: "\<And>t n sk v. wfOpt n \<Longrightarrow> nibbles sk \<Longrightarrow> ins t n sk v \<noteq> Inl IndexOutOfRange"
    and ek: "nibbles ek" and ec: "wfOpt ec" and sk: "nibbles sk"
  shows "insertToExt ins t ek ec sk v \<noteq> Inl IndexOutOfRange"
proof
  assume a: "insertToExt ins t ek ec sk v = Inl IndexOutOfRange"
  let ?ml = "matchingLength sk ek"
  consider (one) "?ml = 0" "length ek = 1"
    | (zero) "?ml = 0" "length ek = 0"
    | (more) "?ml = 0" "length ek \<noteq> 1" "length ek \<noteq> 0"
    | (all) "?ml \<noteq> 0" "?ml = length ek"
    | (part) "?ml \<noteq> 0" "?ml \<noteq> length ek"
    by blast
  then show False
  proof cases
    case one
    then have ne: "ek \<noteq> []" by auto
    from nibbles_hd [OF ek ne] ec branchWithChild_ok [of "unat (hd ek)" ec "[]"]
    obtain b where b: "branchWithChild (unat (hd ek)) ec [] = Inr b" "wfNode b" by auto
    with a one have "ins t (Some b) sk v = Inl IndexOutOfRange"
      by (auto simp: insertToExt_def Let_def split: sum.splits)
    with ih [of "Some b" sk t v] sk b(2) show False by simp
  next
    case zero
    with a show False by (simp add: insertToExt_def Let_def)
  next
    case more
    then have ne: "ek \<noteq> []" by auto
    have "wfOpt (Some (extNode (tl ek) ec))"
      using nibbles_tl [OF ek] ec by (simp add: wfNode_ext del: wfNode.simps)
    with nibbles_hd [OF ek ne] branchWithChild_ok [of "unat (hd ek)" "Some (extNode (tl ek) ec)" "[]"]
    obtain b where b: "branchWithChild (unat (hd ek)) (Some (extNode (tl ek) ec)) [] = Inr b"
      "wfNode b" by auto
    with a more have "ins t (Some b) sk v = Inl IndexOutOfRange"
      by (auto simp: insertToExt_def Let_def split: sum.splits)
    with ih [of "Some b" sk t v] sk b(2) show False by simp
  next
    case all
    with a have "ins t ec (drop ?ml sk) v = Inl IndexOutOfRange"
      by (auto simp: insertToExt_def Let_def split: sum.splits)
    with ih [of ec "drop ?ml sk" t v] nibbles_drop [OF sk] ec show False by simp
  next
    case part
    have wf: "wfOpt (Some (extNode (drop ?ml ek) ec))"
      using nibbles_drop [OF ek] ec by (simp add: wfNode_ext del: wfNode.simps)
    from a part have "ins t (Some (extNode (drop ?ml ek) ec)) (drop ?ml sk) v = Inl IndexOutOfRange"
      by (auto simp: insertToExt_def Let_def split: sum.splits)
    with ih [OF wf nibbles_drop [OF sk, of ?ml], of t v] show False by simp
  qed
qed

lemma insertToBranch_in_bounds:
  assumes ih: "\<And>t n sk v. wfOpt n \<Longrightarrow> nibbles sk \<Longrightarrow> ins t n sk v \<noteq> Inl IndexOutOfRange"
    and wf: "wfNode (branchNode cs tg)" and sk: "nibbles sk"
  shows "insertToBranch ins t cs tg sk v \<noteq> Inl IndexOutOfRange"
proof
  assume a: "insertToBranch ins t cs tg sk v = Inl IndexOutOfRange"
  from wf have len: "length cs = 16" and all: "\<forall>c \<in> set cs. wfOpt c"
    by (simp_all add: wfNode_branch del: wfNode.simps)
  show False
  proof (cases "sk = []")
    case True
    with a show False by (simp add: insertToBranch_def Let_def)
  next
    case False
    let ?pos = "unat (hd sk)"
    have pos: "?pos < 16" by (rule nibbles_hd [OF sk False])
    have upd: "updateChild cs tg ?pos n = Inr (branchNode (cs[?pos := n]) tg)" for n
      using pos by (simp add: updateChild_def)
    show False
    proof (cases "cs ! ?pos = None")
      case True
      with a False pos upd show False
        by (auto simp: insertToBranch_def Let_def split: sum.splits)
    next
      case nn: False
      have wfc: "wfOpt (cs ! ?pos)" using all len pos by simp
      from a False pos nn have
        "(case ins t (cs ! ?pos) (tl sk) v of
            Inl f \<Rightarrow> Inl f
          | Inr (t1, result) \<Rightarrow>
              (case updateChild cs tg ?pos (newNode result) of
                 Inl f \<Rightarrow> Inl f
               | Inr newBranch \<Rightarrow>
                   Inr (t1, res_delete
                              (res_insert (result\<lparr>newNode := Some newBranch\<rparr>) (Some newBranch))
                              (Some (branchNode cs tg))))) = Inl IndexOutOfRange"
        by (simp add: insertToBranch_def Let_def)
      from bindR_Inl [OF this] ih [OF wfc nibbles_tl [OF sk], of t v]
      show False by (auto simp: upd)
    qed
  qed
qed

lemma insert_node_in_bounds:
  "wfOpt n \<Longrightarrow> nibbles sk \<Longrightarrow> insert_node fuel t n sk v \<noteq> Inl IndexOutOfRange"
proof (induction fuel arbitrary: t n sk v)
  case 0
  then show ?case by simp
next
  case (Suc fuel)
  show ?case
  proof (cases n)
    case None
    then show ?thesis by simp
  next
    case (Some nd)
    show ?thesis
    proof (cases nd)
      case (leafNode k lv)
      with Some Suc.prems insertToLeaf_in_bounds [where ins = "insert_node fuel", OF Suc.IH]
      show ?thesis by simp
    next
      case (extNode k c)
      with Some Suc.prems insertToExt_in_bounds [where ins = "insert_node fuel", OF Suc.IH]
      show ?thesis by (simp add: wfNode_ext del: wfNode.simps)
    next
      case (branchNode cs tg)
      with Some Suc.prems insertToBranch_in_bounds [where ins = "insert_node fuel", OF Suc.IH]
      show ?thesis by (simp del: wfNode.simps)
    next
      case (hashNode h)
      show ?thesis
      proof (cases "resolveHash t (BytesToHash h)")
        case (Inl f)
        with Some hashNode resolveHash_fault [OF Inl] show ?thesis by auto
      next
        case (Inr p)
        obtain t1 rn err where p: "p = (t1, rn, err)" by (cases p)
        from Inr p have "wfOpt rn" by (auto dest: resolveHash_wf)
        with Inr p Some hashNode Suc.IH [OF _ Suc.prems(2), of rn t1 v] show ?thesis by simp
      qed
    qed
  qed
qed

lemma Insert_in_bounds: "Insert K fuel t key v \<noteq> Inl IndexOutOfRange"
proof
  assume a: "Insert K fuel t key v = Inl IndexOutOfRange"
  let ?sk = "bytesToNibbles key"
  have sk: "nibbles ?sk" by (rule nibbles_bytesToNibbles)
  let ?first = "if rootHash t = EmptyHash K then
              let newRootNode = leafNode ?sk v in
              Inr (t, res_insert (newInsertResult (Some newRootNode)) (Some newRootNode))
            else
              (case resolveHash t (rootHash t) of
                 Inl f \<Rightarrow> Inl f
               | Inr (t1, rootNode, err) \<Rightarrow>
                   if err \<noteq> None then Inl (PanicMsg ''Insert: can't resolve rootHash'')
                   else insert_node fuel t1 rootNode ?sk v)"
  have first: "?first \<noteq> Inl IndexOutOfRange"
  proof (cases "rootHash t = EmptyHash K")
    case True
    then show ?thesis by (simp add: Let_def)
  next
    case False
    show ?thesis
    proof (cases "resolveHash t (rootHash t)")
      case (Inl f)
      with False resolveHash_fault [OF Inl] show ?thesis by auto
    next
      case (Inr p)
      obtain t1 rn err where p: "p = (t1, rn, err)" by (cases p)
      from Inr p have "wfOpt rn" by (auto dest: resolveHash_wf)
      from insert_node_in_bounds [OF this sk, of fuel t1 v] Inr p False show ?thesis
        by simp
    qed
  qed
  from a have "(case ?first of
        Inl f \<Rightarrow> Inl f
      | Inr (t1, result) \<Rightarrow>
          (case newNode result of
             None \<Rightarrow> Inl NilDereference
           | Some newRootNode \<Rightarrow>
               (case Hash K newRootNode of
                  Inl f \<Rightarrow> Inl f
                | Inr h \<Rightarrow>
                    (case mergeFromInsertResult K (log t1) (rootHash t) (Some result) of
                       Inl f \<Rightarrow> Inl f
                     | Inr newLog \<Rightarrow> Inr (t1, \<lparr>db = db t, rootHash = h, log = newLog\<rparr>))))) =
       Inl IndexOutOfRange"
    by (simp add: Insert_def Let_def)
  from bindR_Inl [OF this] first show False
    by (auto simp: mergeFromInsertResult_def split: option.splits sum.splits
        dest!: Hash_fault merge_fault)
qed

lemma tryFixExt_in_bounds: "tryFixExt K t k c ups \<noteq> Inl IndexOutOfRange"
proof
  assume a: "tryFixExt K t k c ups = Inl IndexOutOfRange"
  let ?child = "case c of
              Some (hashNode h) \<Rightarrow>
                (case getNodeFrom K ups (BytesToHash h) of
                   Inl f \<Rightarrow> Inl f
                 | Inr (Some c) \<Rightarrow> Inr (t, Some c)
                 | Inr None \<Rightarrow>
                     (case resolveHash t (BytesToHash h) of
                        Inl f \<Rightarrow> Inl f
                      | Inr (t1, c, err) \<Rightarrow>
                          if err \<noteq> None
                          then Inl (PanicMsg ''tryFixExt: can't resolve child, maybe because of can't get node from updates'')
                          else Inr (t1, c)))
            | other \<Rightarrow> Inr (t, other)"
  have "?child \<noteq> Inl IndexOutOfRange"
    by (auto split: option.splits node.splits sum.splits
        dest!: getNodeFrom_fault resolveHash_fault)
  moreover from a have "(case ?child of Inl f \<Rightarrow> Inl f
      | Inr (t1, child) \<Rightarrow>
          (case child of
             Some (extNode k' c') \<Rightarrow> Inr (t1, extNode (concat_b k k') c')
           | Some (leafNode k' v) \<Rightarrow> Inr (t1, leafNode (concat_b k k') v)
           | other \<Rightarrow> Inr (t1, extNode k c))) = Inl IndexOutOfRange"
    by (simp add: tryFixExt_def)
  ultimately show False
    by (auto dest!: bindR_Inl split: option.splits node.splits)
qed

lemma tryFixBranch_in_bounds: "tryFixBranch K t cs tg ups \<noteq> Inl IndexOutOfRange"
  using tryFixExt_in_bounds by (simp add: tryFixBranch_def Let_def)

lemma tryFix_in_bounds: "tryFix K t n ups \<noteq> Inl IndexOutOfRange"
  using tryFixExt_in_bounds tryFixBranch_in_bounds
  by (simp add: tryFix_def split: node.splits)

lemma deleteFromExt_in_bounds:
  assumes ih: "\<And>t n sk. nibbles sk \<Longrightarrow> del t n sk \<noteq> Inl IndexOutOfRange"
    and sk: "nibbles sk"
  shows "deleteFromExt del K t ek ec sk \<noteq> Inl IndexOutOfRange"
proof
  assume a: "deleteFromExt del K t ek ec sk = Inl IndexOutOfRange"
  let ?ml = "matchingLength ek sk"
  show False
  proof (cases "?ml \<noteq> length ek")
    case True
    with a show False by (simp add: deleteFromExt_def Let_def)
  next
    case False
    show False
    proof (cases "del t ec (drop ?ml sk)")
      case (Inl f)
      with a False ih [OF nibbles_drop [OF sk, of ?ml], of t ec] show False
        by (simp add: deleteFromExt_def Let_def)
    next
      case (Inr p)
      obtain t1 r where p: "p = (t1, r)" by (cases p)
      with a False Inr tryFix_in_bounds [of K t1 "extNode ek (newNode r)" "insertedNodes r"]
      show False
        by (auto simp: deleteFromExt_def Let_def split: if_splits sum.splits)
    qed
  qed
qed

lemma deleteFromBranch_in_bounds:
  assumes ih: "\<And>t n sk. nibbles sk \<Longrightarrow> del t n sk \<noteq> Inl IndexOutOfRange"
    and sk: "nibbles sk"
  shows "deleteFromBranch del K t cs tg sk \<noteq> Inl IndexOutOfRange"
proof
  assume a: "deleteFromBranch del K t cs tg sk = Inl IndexOutOfRange"
  show False
  proof (cases "sk = []")
    case True
    with a tryFix_in_bounds [of K t "branchWithChildren cs" "[]"] show False
      by (auto simp: deleteFromBranch_def Let_def split: if_splits sum.splits)
  next
    case False
    let ?i = "unat (hd sk)"
    have pos: "?i < 16" by (rule nibbles_hd [OF sk False])
    have upd: "updateChild cs tg ?i n = Inr (branchNode (cs[?i := n]) tg)" for n
      using pos by (simp add: updateChild_def)
    show False
    proof (cases "cs ! ?i = None")
      case True
      with a False pos show False by (simp add: deleteFromBranch_def Let_def)
    next
      case nn: False
      show False
      proof (cases "del t (cs ! ?i) (tl sk)")
        case (Inl f)
        with a False pos nn ih [OF nibbles_tl [OF sk], of t "cs ! ?i"] show False
          by (simp add: deleteFromBranch_def Let_def)
      next
        case (Inr p)
        obtain t1 r where p: "p = (t1, r)" by (cases p)
        with a False pos nn Inr upd
          tryFix_in_bounds [of K t1 "branchNode (cs[?i := newNode r]) tg" "insertedNodes r"]
        show False
          by (auto simp: deleteFromBranch_def Let_def split: if_splits sum.splits)
      qed
    qed
  qed
qed

lemma delete_node_in_bounds:
  "nibbles sk \<Longrightarrow> delete_node K fuel t n sk \<noteq> Inl IndexOutOfRange"
proof (induction fuel arbitrary: t n sk)
  case 0
  then show ?case by simp
next
  case (Suc fuel)
  show ?case
  proof (cases n)
    case None
    then show ?thesis by simp
  next
    case (Some nd)
    show ?thesis
    proof (cases nd)
      case (leafNode k lv)
      with Some show ?thesis by simp
    next
      case (extNode k c)
      with Some Suc.prems
        deleteFromExt_in_bounds [where del = "delete_node K fuel", OF Suc.IH]
      show ?thesis by simp
    next
      case (branchNode cs tg)
      with Some Suc.prems
        deleteFromBranch_in_bounds [where del = "delete_node K fuel", OF Suc.IH]
      show ?thesis by simp
    next
      case (hashNode h)
      show ?thesis
      proof (cases "resolveHash t (BytesToHash h)")
        case (Inl f)
        with Some hashNode resolveHash_fault [OF Inl] show ?thesis by auto
      next
        case (Inr p)
        obtain t1 rn err where p: "p = (t1, rn, err)" by (cases p)
        with Inr Some hashNode Suc.IH [OF Suc.prems, of t1 rn] show ?thesis by simp
      qed
    qed
  qed
qed

lemma Delete_in_bounds: "Delete K fuel t key \<noteq> Inl IndexOutOfRange"
proof (cases "rootHash t = EmptyHash K")
  case True
  then show ?thesis by (simp add: Delete_def)
next
  case False
  show ?thesis
  proof (cases "resolveHash t (rootHash t)")
    case (Inl f)
    with False resolveHash_fault [OF Inl] show ?thesis by (auto simp: Delete_def)
  next
    case (Inr p)
    obtain t1 rn err where p: "p = (t1, rn, err)" by (cases p)
    show ?thesis
    proof (cases "err \<noteq> None")
      case True
      with False Inr p show ?thesis by (simp add: Delete_def)
    next
      case ok: False
      show ?thesis
      proof (cases "delete_node K fuel t1 rn (bytesToNibbles key)")
        case (Inl f)
        with False Inr p ok delete_node_in_bounds [OF nibbles_bytesToNibbles, of K fuel t1 rn key]
        show ?thesis by (simp add: Delete_def)
      next
        case (Inr q)
        obtain t2 r where q: "q = (t2, r)" by (cases q)
        with False \<open>resolveHash t (rootHash t) = Inr p\<close> p ok Inr show ?thesis
          by (auto simp: Delete_def Let_def mergeFromDeleteResult_def
              split: option.splits sum.splits dest!: Hash_fault merge_fault)
      qed
    qed
  qed
qed

text \<open>
  C9: for every key passed to \<^verbatim>\<open>Get\<close>, \<^verbatim>\<open>Insert\<close> or \<^verbatim>\<open>Delete\<close>, every nibble that
  \<^verbatim>\<open>bytesToNibbles\<close> makes of it is below 16 and there are twice as many nibbles as bytes;
  hence no access \<^verbatim>\<open>children[searchKey[0]]\<close> of the three operations is out of the bounds
  of the 16 children: none of them ends in an index-out-of-range panic, whatever the trie.
\<close>

theorem nibbles_in_bounds:
  "(\<forall>x \<in> set (bytesToNibbles key). unat x < 16)
   \<and> length (bytesToNibbles key) = 2 * length key
   \<and> Get K fuel t key \<noteq> Inl IndexOutOfRange
   \<and> Insert K fuel t key v \<noteq> Inl IndexOutOfRange
   \<and> Delete K fuel t key \<noteq> Inl IndexOutOfRange"
  using nibbles_bytesToNibbles [of key] length_bytesToNibbles [of key]
    Get_in_bounds [of K fuel t key] Insert_in_bounds [of K fuel t key v]
    Delete_in_bounds [of K fuel t key]
  by (simp add: nibbles_def)

theorem nibbles_in_bounds_witness:
  "bytesToNibbles [0xa7, 0x3c] = [0xa, 0x7, 0x3, 0xc]
   \<and> list_all (\<lambda>x. unat x < 16) [0xa, 0x7, 0x3, 0xc :: byte]
   \<and> Get K0 5 (NewTrie (EmptyHash K0) []) [0xa7, 0x3c] \<noteq> Inl IndexOutOfRange
   \<and> Insert K0 5 (NewTrie (EmptyHash K0) []) [0xa7, 0x3c] [1] \<noteq> Inl IndexOutOfRange
   \<and> Delete K0 5 (NewTrie (EmptyHash K0) []) [0xa7, 0x3c] \<noteq> Inl IndexOutOfRange"
proof -
  have n: "bytesToNibbles [0xa7, 0x3c] = [0xa, 0x7, 0x3, 0xc]" by code_simp
  from nibbles_in_bounds [of "[0xa7, 0x3c]" K0 5 "NewTrie (EmptyHash K0) []" "[1]"]
  show ?thesis unfolding n by (simp add: list_all_iff)
qed


section \<open>Insert, then Get\<close>

subsection \<open>Keys and fields come back from their encoding\<close>









lemma putLen_nonempty: "putLen n \<noteq> []"
  by (subst putLen.simps) simp


lemma putField_nonempty: "putField a \<noteq> []"
  by (simp add: putField_def putLen_nonempty)




lemma marshal_lengths:
  "length (marshalLeafNode a b) \<ge> 2" "length (marshalExtNode a b) \<ge> 2"
  "length (marshalBranchNode cs t) \<ge> 1"
proof -
  have "length (putField x) \<ge> 1" for x
    using putField_nonempty [of x] by (cases "putField x") auto
  from this [of a] this [of b] this [of t]
  show "length (marshalLeafNode a b) \<ge> 2" "length (marshalExtNode a b) \<ge> 2"
    "length (marshalBranchNode cs t) \<ge> 1"
    by (simp_all add: marshalLeafNode_def marshalExtNode_def marshalBranchNode_def)
qed

subsection \<open>A node comes back from its encoding\<close>










lemma sequenceR_Inr: "sequenceR rs = Inr xs \<Longrightarrow> rs = map Inr xs"
  by (induction rs arbitrary: xs) (auto split: sum.splits)
















subsection \<open>The nodes that insert builds hold a path to the value\<close>








lemma res_fields [simp]:
  "insertedNodes (res_insert r (Some x)) = insertedNodes r @ [x]"
  "insertedNodes (res_insert r None) = insertedNodes r"
  "insertedNodes (res_delete r n) = insertedNodes r"
  "newNode (res_insert r n) = newNode r"
  "newNode (res_delete r n) = newNode r"
  "deletedNodes (res_insert r n) = deletedNodes r"
  by (simp_all add: res_insert_def res_delete_def split: option.splits)

lemma newInsertResult_fields [simp]:
  "newNode (newInsertResult n) = n" "insertedNodes (newInsertResult n) = []"
  by (simp_all add: newInsertResult_def)









subsection \<open>merge records the nodes of the path\<close>










subsection \<open>Get walks the path\<close>













end
